theory Spec2Isabelle
  imports Main "HOL-Library.AList"
begin

section \<open>ChatFlow: the real-time delivery subsystem\<close>

text \<open>
  A shallow embedding of \<^verbatim>\<open>app/websocket/manager.py\<close> (the \<^verbatim>\<open>ConnectionManager\<close>) and
  \<^verbatim>\<open>app/websocket/router.py\<close> (the handshake and the per-connection read loop), with the
  parts of \<^verbatim>\<open>app/core/redis.py\<close> and \<^verbatim>\<open>app/core/security.py\<close> they call.

  One coroutine is followed from call to return; other tasks do not run in between.
  The clock is left out: the envelope's \<^verbatim>\<open>timestamp\<close>, \<^verbatim>\<open>last_seen\<close> and
  \<^verbatim>\<open>read_at\<close> do not appear in the frames, and the expiry of Redis keys is not modelled.
\<close>

subsection \<open>Identities and frames\<close>

text \<open>
  User and chat identifiers are Python \<^verbatim>\<open>str\<close> values; a \<^verbatim>\<open>WebSocket\<close> object is compared by
  identity, so it is a number here.
\<close>

type_synonym user_id = string
type_synonym chat_id = string
type_synonym websocket = nat

datatype WSEventType =
    CONNECT | DISCONNECT | PING | PONG
  | MESSAGE_NEW | MESSAGE_UPDATE | MESSAGE_DELETE | MESSAGE_REACTION | MESSAGE_READ
  | TYPING_START | TYPING_STOP
  | USER_ONLINE | USER_OFFLINE | USER_STATUS
  | CHAT_NEW | CHAT_UPDATE | CHAT_DELETE | CHAT_MEMBER_JOIN | CHAT_MEMBER_LEAVE
  | NOTIFICATION | ERROR

fun value_of :: "WSEventType \<Rightarrow> string" where
  "value_of CONNECT = ''connect''"
| "value_of DISCONNECT = ''disconnect''"
| "value_of PING = ''ping''"
| "value_of PONG = ''pong''"
| "value_of MESSAGE_NEW = ''message.new''"
| "value_of MESSAGE_UPDATE = ''message.update''"
| "value_of MESSAGE_DELETE = ''message.delete''"
| "value_of MESSAGE_REACTION = ''message.reaction''"
| "value_of MESSAGE_READ = ''message.read''"
| "value_of TYPING_START = ''typing.start''"
| "value_of TYPING_STOP = ''typing.stop''"
| "value_of USER_ONLINE = ''user.online''"
| "value_of USER_OFFLINE = ''user.offline''"
| "value_of USER_STATUS = ''user.status''"
| "value_of CHAT_NEW = ''chat.new''"
| "value_of CHAT_UPDATE = ''chat.update''"
| "value_of CHAT_DELETE = ''chat.delete''"
| "value_of CHAT_MEMBER_JOIN = ''chat.member.join''"
| "value_of CHAT_MEMBER_LEAVE = ''chat.member.leave''"
| "value_of NOTIFICATION = ''notification''"
| "value_of ERROR = ''error''"

text \<open>What \<^verbatim>\<open>json.loads\<close> returns and what \<^verbatim>\<open>model_dump(mode="json")\<close> produces.\<close>

datatype jval =
    JNull | JBool bool | JNum int | JStr string
  | JArr "jval list" | JObj "(string \<times> jval) list"

text \<open>Python's truth value of a decoded JSON value (\<^verbatim>\<open>if chat_id:\<close>).\<close>

fun truthy :: "jval \<Rightarrow> bool" where
  "truthy JNull = False"
| "truthy (JBool b) = b"
| "truthy (JNum n) = (n \<noteq> 0)"
| "truthy (JStr s) = (s \<noteq> [])"
| "truthy (JArr xs) = (xs \<noteq> [])"
| "truthy (JObj kvs) = (kvs \<noteq> [])"

text \<open>
  \<^verbatim>\<open>x.get(key, default)\<close>: only a dict has \<^verbatim>\<open>get\<close>; on any other value the attribute
  lookup raises \<^verbatim>\<open>AttributeError\<close>, which is \<open>None\<close> here.
\<close>

fun py_get :: "jval \<Rightarrow> string \<Rightarrow> jval \<Rightarrow> jval option" where
  "py_get (JObj kvs) key dflt = Some (case map_of kvs key of None \<Rightarrow> dflt | Some v \<Rightarrow> v)"
| "py_get _ key dflt = None"

datatype exn =
    WebSocketDisconnect | JSONDecodeError | AttributeError | TypeError | ValueError
  | RuntimeError | MultipleResultsFound | DBAPIError

text \<open>
  What happens on the transports, in order: a text frame written, a write that raised,
  a close frame with its status code.
\<close>

datatype io =
    Sent websocket WSEventType jval
  | SendFailed websocket WSEventType jval
  | Closed websocket nat

datatype WebSocketState = CONNECTING | CONNECTED | DISCONNECTED

datatype redis_key = Online user_id | Typing chat_id user_id

subsection \<open>The world\<close>

text \<open>
  \<open>active_connections\<close> and \<open>chat_subscriptions\<close> are the two dicts of the
  \<^verbatim>\<open>ConnectionManager\<close>, as association lists in insertion order; a chat's \<^verbatim>\<open>set\<close> of
  user ids is a list (Python fixes no iteration order for it). \<open>redis\<close> holds the keys
  present in Redis, \<open>None\<close> when \<^verbatim>\<open>redis_manager.redis\<close> is \<^verbatim>\<open>None\<close>. \<open>states\<close> is
  the \<^verbatim>\<open>application_state\<close> of every transport that has left \<^verbatim>\<open>CONNECTING\<close>,
  \<open>broken\<close> lists the transports whose peer is gone, and \<open>wire\<close> records the traffic.
\<close>

record world =
  active_connections :: "(user_id \<times> websocket list) list"
  chat_subscriptions :: "(chat_id \<times> user_id list) list"
  redis :: "redis_key list option"
  states :: "(websocket \<times> WebSocketState) list"
  broken :: "websocket list"
  wire :: "io list"

text \<open>A call either returns or raises; the world it leaves behind is kept in both cases.\<close>

datatype outcome = Done world | Raised exn world

fun world_of :: "outcome \<Rightarrow> world" where
  "world_of (Done s) = s"
| "world_of (Raised e s) = s"

definition ConnectionsOf :: "world \<Rightarrow> user_id \<Rightarrow> websocket list" where
  "ConnectionsOf s user_id =
     (case map_of (active_connections s) user_id of None \<Rightarrow> [] | Some conns \<Rightarrow> conns)"

definition SubscribersOf :: "world \<Rightarrow> chat_id \<Rightarrow> user_id list" where
  "SubscribersOf s chat_id =
     (case map_of (chat_subscriptions s) chat_id of None \<Rightarrow> [] | Some users \<Rightarrow> users)"

subsection \<open>Transports\<close>

definition application_state :: "world \<Rightarrow> websocket \<Rightarrow> WebSocketState" where
  "application_state s ws = (case map_of (states s) ws of None \<Rightarrow> CONNECTING | Some st \<Rightarrow> st)"

text \<open>
  \<^verbatim>\<open>websocket.accept()\<close> completes the handshake of a transport that is still
  \<^verbatim>\<open>CONNECTING\<close>; the framework raises \<^verbatim>\<open>RuntimeError\<close> in any other state.
\<close>

definition accept :: "websocket \<Rightarrow> world \<Rightarrow> outcome" where
  "accept ws s =
     (if application_state s ws = CONNECTING
      then Done (s\<lparr>states := AList.update ws CONNECTED (states s)\<rparr>)
      else Raised RuntimeError s)"

text \<open>\<^verbatim>\<open>websocket.close(code)\<close>: raises once a close frame has been sent.\<close>

definition close :: "websocket \<Rightarrow> nat \<Rightarrow> world \<Rightarrow> outcome" where
  "close ws code s =
     (if application_state s ws = DISCONNECTED then Raised RuntimeError s
      else Done (s\<lparr>states := AList.update ws DISCONNECTED (states s),
                   wire := wire s @ [Closed ws code]\<rparr>))"

text \<open>A write succeeds on an accepted transport whose peer is still there.\<close>

definition writable :: "world \<Rightarrow> websocket \<Rightarrow> bool" where
  "writable s ws = (application_state s ws = CONNECTED \<and> ws \<notin> set (broken s))"

subsection \<open>The presence store (\<^verbatim>\<open>RedisManager\<close>)\<close>

definition set_user_online :: "user_id \<Rightarrow> world \<Rightarrow> world" where
  "set_user_online user_id s = s\<lparr>redis := map_option (List.insert (Online user_id)) (redis s)\<rparr>"

definition set_user_offline :: "user_id \<Rightarrow> world \<Rightarrow> world" where
  "set_user_offline user_id s = s\<lparr>redis := map_option (removeAll (Online user_id)) (redis s)\<rparr>"

definition set_user_typing :: "user_id \<Rightarrow> chat_id \<Rightarrow> bool \<Rightarrow> world \<Rightarrow> world" where
  "set_user_typing user_id chat_id is_typing s =
     (if is_typing
      then s\<lparr>redis := map_option (List.insert (Typing chat_id user_id)) (redis s)\<rparr>
      else s\<lparr>redis := map_option (removeAll (Typing chat_id user_id)) (redis s)\<rparr>)"

subsection \<open>The connection manager\<close>

text \<open>
  The loop \<^verbatim>\<open>for websocket in self.active_connections[user_id]\<close> with its
  \<^verbatim>\<open>try: send_text / except: disconnected.append\<close>: returns the list \<^verbatim>\<open>disconnected\<close>.
\<close>

fun send_each :: "WSEventType \<Rightarrow> jval \<Rightarrow> websocket list \<Rightarrow> world \<Rightarrow> websocket list \<times> world" where
  "send_each event data [] s = ([], s)"
| "send_each event data (ws # wss) s =
     (if writable s ws
      then send_each event data wss (s\<lparr>wire := wire s @ [Sent ws event data]\<rparr>)
      else (let (disconnected, s') =
                  send_each event data wss (s\<lparr>wire := wire s @ [SendFailed ws event data]\<rparr>)
            in (ws # disconnected, s')))"

text \<open>A \<^verbatim>\<open>for\<close> loop whose body may fail to return.\<close>

primrec for_each :: "('a \<Rightarrow> 's \<Rightarrow> 's option) \<Rightarrow> 'a list \<Rightarrow> 's \<Rightarrow> 's option" where
  "for_each body [] s = Some s"
| "for_each body (x # xs) s = Option.bind (body x s) (for_each body xs)"

text \<open>\<^verbatim>\<open>if exclude_user and user_id == exclude_user: continue\<close>\<close>

definition excluded :: "user_id option \<Rightarrow> user_id \<Rightarrow> bool" where
  "excluded exclude_user user_id =
     (case exclude_user of None \<Rightarrow> False | Some x \<Rightarrow> x \<noteq> [] \<and> user_id = x)"

text \<open>
  \<^verbatim>\<open>disconnect\<close>, \<^verbatim>\<open>broadcast_user_status\<close> and \<^verbatim>\<open>broadcast_to_chat\<close> call each other.
  The two broadcasts are written first, over the \<^verbatim>\<open>disconnect\<close> they call.
\<close>

definition broadcast_to_chat_with ::
  "(websocket \<Rightarrow> user_id \<Rightarrow> world \<Rightarrow> world option) \<Rightarrow>
   chat_id \<Rightarrow> WSEventType \<Rightarrow> jval \<Rightarrow> user_id option \<Rightarrow> world \<Rightarrow> world option" where
  "broadcast_to_chat_with disc chat_id event data exclude_user s =
     (case map_of (chat_subscriptions s) chat_id of
        None \<Rightarrow> Some s
      | Some users \<Rightarrow>
          for_each (\<lambda>user_id s1.
             if excluded exclude_user user_id then Some s1
             else (case map_of (active_connections s1) user_id of
                     None \<Rightarrow> Some s1
                   | Some conns \<Rightarrow>
                       (let (disconnected, s2) = send_each event data conns s1
                        in for_each (\<lambda>ws. disc ws user_id) disconnected s2)))
            users s)"

definition WSUserStatus :: "user_id \<Rightarrow> string \<Rightarrow> jval" where
  "WSUserStatus user_id status = JObj [(''user_id'', JStr user_id), (''status'', JStr status)]"

definition broadcast_user_status_with ::
  "(websocket \<Rightarrow> user_id \<Rightarrow> world \<Rightarrow> world option) \<Rightarrow>
   user_id \<Rightarrow> string \<Rightarrow> world \<Rightarrow> world option" where
  "broadcast_user_status_with disc user_id status s =
     (let event = (if status = ''online'' then USER_ONLINE else USER_OFFLINE);
          data = WSUserStatus user_id status
      in for_each (\<lambda>(chat_id, users) s1.
            if user_id \<in> set users
            then broadcast_to_chat_with disc chat_id event data (Some user_id) s1
            else Some s1)
          (chat_subscriptions s) s)"

lemma for_each_mono [partial_function_mono]:
  assumes "\<And>x s. mono_option (\<lambda>f. body f x s)"
  shows "mono_option (\<lambda>f. for_each (body f) xs s)"
proof (induction xs arbitrary: s)
  case Nil
  show ?case by (simp add: option.const_mono)
next
  case (Cons x xs)
  show ?case unfolding for_each.simps
    by (rule bind_mono) (rule assms, rule Cons)
qed

lemma broadcast_to_chat_with_mono [partial_function_mono]:
  assumes "\<And>ws u s. mono_option (\<lambda>f. disc f ws u s)"
  shows "mono_option (\<lambda>f. broadcast_to_chat_with (disc f) c ev d ex s)"
proof (cases "map_of (chat_subscriptions s) c")
  case None
  then show ?thesis by (simp add: broadcast_to_chat_with_def option.const_mono)
next
  case (Some users)
  have "mono_option (\<lambda>f. for_each (\<lambda>ws. disc f ws u) dis s2)" for u dis s2
    by (rule for_each_mono) (rule assms)
  then have "mono_option (\<lambda>f. case map_of (active_connections s1) u of
                     None \<Rightarrow> Some s1
                   | Some conns \<Rightarrow>
                       (let (disconnected, s2) = send_each ev d conns s1
                        in for_each (\<lambda>ws. disc f ws u) disconnected s2))" for u s1
    by (cases "map_of (active_connections s1) u")
       (simp_all add: option.const_mono split_beta)
  then show ?thesis
    unfolding broadcast_to_chat_with_def Some option.case
    by (intro for_each_mono if_mono option.const_mono)
qed

lemma broadcast_user_status_with_mono [partial_function_mono]:
  assumes "\<And>ws u s. mono_option (\<lambda>f. disc f ws u s)"
  shows "mono_option (\<lambda>f. broadcast_user_status_with (disc f) u st s)"
  unfolding broadcast_user_status_with_def Let_def split_beta
  by (intro for_each_mono if_mono option.const_mono broadcast_to_chat_with_mono assms)

text \<open>
  \<^verbatim>\<open>ConnectionManager.disconnect\<close>. A result \<open>None\<close> would mean that the call does not
  return; \<open>disconnect_returns\<close> below shows that it always does.
\<close>

partial_function (option) disconnect :: "websocket \<Rightarrow> user_id \<Rightarrow> world \<Rightarrow> world option" where
  "disconnect websocket user_id s =
     (case map_of (active_connections s) user_id of
        None \<Rightarrow> Some s
      | Some conns \<Rightarrow>
          (let conns' = (if websocket \<in> set conns then remove1 websocket conns else conns)
           in if conns' = []
              then broadcast_user_status_with disconnect user_id ''offline''
                     (set_user_offline user_id
                        (s\<lparr>active_connections := AList.delete user_id (active_connections s)\<rparr>))
              else Some (s\<lparr>active_connections :=
                              AList.update user_id conns' (active_connections s)\<rparr>)))"

declare disconnect.simps [code]

definition broadcast_to_chat ::
  "chat_id \<Rightarrow> WSEventType \<Rightarrow> jval \<Rightarrow> user_id option \<Rightarrow> world \<Rightarrow> world option" where
  "broadcast_to_chat = broadcast_to_chat_with disconnect"

definition broadcast_user_status :: "user_id \<Rightarrow> string \<Rightarrow> world \<Rightarrow> world option" where
  "broadcast_user_status = broadcast_user_status_with disconnect"

definition connect :: "websocket \<Rightarrow> user_id \<Rightarrow> world \<Rightarrow> outcome option" where
  "connect websocket user_id s =
     (case accept websocket s of
        Raised e s1 \<Rightarrow> Some (Raised e s1)
      | Done s1 \<Rightarrow>
          (let s2 = s1\<lparr>active_connections :=
                         AList.update user_id (ConnectionsOf s1 user_id @ [websocket])
                           (active_connections s1)\<rparr>;
               s3 = set_user_online user_id s2
           in map_option Done (broadcast_user_status user_id ''online'' s3)))"

definition subscribe_to_chat :: "user_id \<Rightarrow> chat_id \<Rightarrow> world \<Rightarrow> world" where
  "subscribe_to_chat user_id chat_id s =
     s\<lparr>chat_subscriptions :=
         AList.update chat_id (List.insert user_id (SubscribersOf s chat_id))
           (chat_subscriptions s)\<rparr>"

definition unsubscribe_from_chat :: "user_id \<Rightarrow> chat_id \<Rightarrow> world \<Rightarrow> world" where
  "unsubscribe_from_chat user_id chat_id s =
     (case map_of (chat_subscriptions s) chat_id of
        None \<Rightarrow> s
      | Some users \<Rightarrow>
          s\<lparr>chat_subscriptions :=
              AList.update chat_id (removeAll user_id users) (chat_subscriptions s)\<rparr>)"

definition send_personal_message ::
  "user_id \<Rightarrow> WSEventType \<Rightarrow> jval \<Rightarrow> world \<Rightarrow> world option" where
  "send_personal_message user_id event data s =
     (case map_of (active_connections s) user_id of
        None \<Rightarrow> Some s
      | Some conns \<Rightarrow>
          (let (disconnected, s1) = send_each event data conns s
           in for_each (\<lambda>ws. disconnect ws user_id) disconnected s1))"

definition is_user_online :: "user_id \<Rightarrow> world \<Rightarrow> bool" where
  "is_user_online user_id s = (map_of (active_connections s) user_id \<noteq> None)"

definition get_online_users_count :: "world \<Rightarrow> nat" where
  "get_online_users_count s = length (active_connections s)"

subsection \<open>Payloads\<close>

definition WSTyping :: "chat_id \<Rightarrow> user_id \<Rightarrow> string \<Rightarrow> jval" where
  "WSTyping chat_id user_id username =
     JObj [(''chat_id'', JStr chat_id), (''user_id'', JStr user_id), (''username'', JStr username)]"

definition WSMessageRead :: "chat_id \<Rightarrow> user_id \<Rightarrow> string \<Rightarrow> jval" where
  "WSMessageRead chat_id user_id message_id =
     JObj [(''chat_id'', JStr chat_id), (''user_id'', JStr user_id),
           (''message_id'', JStr message_id)]"

definition WSError :: "string \<Rightarrow> string \<Rightarrow> jval" where
  "WSError code message =
     JObj [(''code'', JStr code), (''message'', JStr message), (''details'', JNull)]"

subsection \<open>The collaborators of the router\<close>

text \<open>
  The relational store, the JWT library and the UUID parsers are not part of the
  repository's code; they are parameters. \<open>jwt_decode\<close> is \<^verbatim>\<open>decode_token\<close>'s
  \<^verbatim>\<open>jwt.decode\<close> with the configured key (\<open>None\<close> for \<^verbatim>\<open>JWTError\<close>), \<open>user_rows\<close> and
  \<open>member_table\<close> are the rows of the two tables the router reads, \<open>is_uuid\<close> says which
  strings \<^verbatim>\<open>UUID(...)\<close> and the database driver accept as an identifier, and
  \<open>write_error\<close> is the exception a failed \<^verbatim>\<open>send_json\<close> raises.
\<close>

record User =
  id_str :: user_id
  username :: string

record ChatMember =
  member_chat_id :: chat_id
  member_user_id :: user_id
  is_active :: bool

record env =
  jwt_decode :: "string \<Rightarrow> (string \<times> string) list option"
  user_rows :: "User list"
  member_table :: "ChatMember list"
  is_uuid :: "string \<Rightarrow> bool"
  write_error :: exn

definition verify_token :: "env \<Rightarrow> string \<Rightarrow> string \<Rightarrow> string option" where
  "verify_token env token token_type =
     (case jwt_decode env token of
        None \<Rightarrow> None
      | Some payload \<Rightarrow>
          if map_of payload ''type'' \<noteq> Some token_type then None
          else map_of payload ''sub'')"

text \<open>\<^verbatim>\<open>scalar_one_or_none()\<close> on the rows a query returned.\<close>

fun scalar_one_or_none :: "'a list \<Rightarrow> exn + 'a option" where
  "scalar_one_or_none [] = Inr None"
| "scalar_one_or_none [row] = Inr (Some row)"
| "scalar_one_or_none _ = Inl MultipleResultsFound"

text \<open>The user id is the primary key of its table: the query returns at most one row.\<close>

definition get_user_from_token :: "env \<Rightarrow> string \<Rightarrow> User option" where
  "get_user_from_token env token =
     (case verify_token env token ''access'' of
        None \<Rightarrow> None
      | Some user_id \<Rightarrow>
          if user_id = [] then None
          else find (\<lambda>u. id_str u = user_id) (user_rows env))"

definition get_user_chat_ids :: "env \<Rightarrow> user_id \<Rightarrow> chat_id list" where
  "get_user_chat_ids env user_id =
     map member_chat_id
       (filter (\<lambda>m. member_user_id m = user_id \<and> is_active m) (member_table env))"

text \<open>
  The membership query of the \<^verbatim>\<open>subscribe\<close> branch: the driver rejects a parameter that
  is not an identifier.
\<close>

definition member_rows :: "env \<Rightarrow> chat_id \<Rightarrow> user_id \<Rightarrow> exn + ChatMember option" where
  "member_rows env chat_id user_id =
     (if is_uuid env chat_id
      then scalar_one_or_none
             (filter (\<lambda>m. member_chat_id m = chat_id \<and> member_user_id m = user_id \<and> is_active m)
                (member_table env))
      else Inl DBAPIError)"

subsection \<open>Manager calls with client-supplied identifiers\<close>

text \<open>
  \<^verbatim>\<open>send_typing_status\<close> and \<^verbatim>\<open>send_read_receipt\<close> build their payload with
  \<^verbatim>\<open>UUID(chat_id)\<close> first: a value that is not a string has no \<^verbatim>\<open>replace\<close>
  (\<^verbatim>\<open>AttributeError\<close>), a string that is not an identifier is a \<^verbatim>\<open>ValueError\<close>. The
  user id is the \<^verbatim>\<open>str()\<close> of a stored key, which \<^verbatim>\<open>UUID\<close> accepts.
\<close>

definition send_typing_status ::
  "env \<Rightarrow> jval \<Rightarrow> user_id \<Rightarrow> string \<Rightarrow> bool \<Rightarrow> world \<Rightarrow> outcome option" where
  "send_typing_status env chat_id user_id uname is_typing s =
     (case chat_id of
        JStr c \<Rightarrow>
          if is_uuid env c
          then (case broadcast_to_chat c (if is_typing then TYPING_START else TYPING_STOP)
                       (WSTyping c user_id uname) (Some user_id) s of
                  None \<Rightarrow> None
                | Some s1 \<Rightarrow> Some (Done (set_user_typing user_id c is_typing s1)))
          else Some (Raised ValueError s)
      | _ \<Rightarrow> Some (Raised AttributeError s))"

definition send_read_receipt ::
  "env \<Rightarrow> jval \<Rightarrow> user_id \<Rightarrow> jval \<Rightarrow> world \<Rightarrow> outcome option" where
  "send_read_receipt env chat_id user_id message_id s =
     (case chat_id of
        JStr c \<Rightarrow>
          if is_uuid env c
          then (case message_id of
                  JStr m \<Rightarrow>
                    if is_uuid env m
                    then map_option Done
                           (broadcast_to_chat c MESSAGE_READ (WSMessageRead c user_id m)
                              (Some user_id) s)
                    else Some (Raised ValueError s)
                | _ \<Rightarrow> Some (Raised AttributeError s))
          else Some (Raised ValueError s)
      | _ \<Rightarrow> Some (Raised AttributeError s))"

subsection \<open>The router\<close>

definition send_json :: "env \<Rightarrow> websocket \<Rightarrow> WSEventType \<Rightarrow> jval \<Rightarrow> world \<Rightarrow> outcome" where
  "send_json env ws event data s =
     (if writable s ws then Done (s\<lparr>wire := wire s @ [Sent ws event data]\<rparr>)
      else Raised (write_error env) (s\<lparr>wire := wire s @ [SendFailed ws event data]\<rparr>))"

definition send_error :: "env \<Rightarrow> websocket \<Rightarrow> string \<Rightarrow> string \<Rightarrow> world \<Rightarrow> outcome" where
  "send_error env ws code message s = send_json env ws ERROR (WSError code message) s"

text \<open>
  \<^verbatim>\<open>handle_websocket_event\<close>. \<open>event_type\<close> and \<open>data\<close> are what the read loop took out of
  the decoded frame. In the \<^verbatim>\<open>subscribe\<close> branch a chat id that is not a string cannot be
  bound to the query. In the \<^verbatim>\<open>unsubscribe\<close> branch a chat id that is a list or a dict
  cannot be a dictionary key (\<^verbatim>\<open>TypeError\<close>), and a number or \<^verbatim>\<open>true\<close> is the key of
  no chat. The message of the \<^verbatim>\<open>UNKNOWN_EVENT\<close> error quotes the event type in the source;
  here it is the fixed part of that text.
\<close>

definition handle_websocket_event ::
  "env \<Rightarrow> websocket \<Rightarrow> User \<Rightarrow> jval \<Rightarrow> jval \<Rightarrow> world \<Rightarrow> outcome option" where
  "handle_websocket_event env websocket user event_type data s =
     (let user_id = id_str user in
      if event_type = JStr (value_of PING) then
        (case send_json env websocket PONG (JObj []) s of
           Raised e s1 \<Rightarrow> Some (Raised e s1)
         | Done s1 \<Rightarrow> Some (Done (set_user_online user_id s1)))
      else if event_type = JStr (value_of TYPING_START) then
        (case py_get data ''chat_id'' JNull of
           None \<Rightarrow> Some (Raised AttributeError s)
         | Some chat_id \<Rightarrow>
             if truthy chat_id
             then send_typing_status env chat_id user_id (username user) True s
             else Some (Done s))
      else if event_type = JStr (value_of TYPING_STOP) then
        (case py_get data ''chat_id'' JNull of
           None \<Rightarrow> Some (Raised AttributeError s)
         | Some chat_id \<Rightarrow>
             if truthy chat_id
             then send_typing_status env chat_id user_id (username user) False s
             else Some (Done s))
      else if event_type = JStr (value_of MESSAGE_READ) then
        (case py_get data ''chat_id'' JNull of
           None \<Rightarrow> Some (Raised AttributeError s)
         | Some chat_id \<Rightarrow>
             (case py_get data ''message_id'' JNull of
                None \<Rightarrow> Some (Raised AttributeError s)
              | Some message_id \<Rightarrow>
                  if truthy chat_id \<and> truthy message_id
                  then send_read_receipt env chat_id user_id message_id s
                  else Some (Done s)))
      else if event_type = JStr ''subscribe'' then
        (case py_get data ''chat_id'' JNull of
           None \<Rightarrow> Some (Raised AttributeError s)
         | Some chat_id \<Rightarrow>
             if truthy chat_id
             then (case chat_id of
                     JStr c \<Rightarrow>
                       (case member_rows env c user_id of
                          Inl e \<Rightarrow> Some (Raised e s)
                        | Inr None \<Rightarrow> Some (Done s)
                        | Inr (Some row) \<Rightarrow> Some (Done (subscribe_to_chat user_id c s)))
                   | _ \<Rightarrow> Some (Raised DBAPIError s))
             else Some (Done s))
      else if event_type = JStr ''unsubscribe'' then
        (case py_get data ''chat_id'' JNull of
           None \<Rightarrow> Some (Raised AttributeError s)
         | Some chat_id \<Rightarrow>
             if truthy chat_id
             then (case chat_id of
                     JStr c \<Rightarrow> Some (Done (unsubscribe_from_chat user_id c s))
                   | JArr xs \<Rightarrow> Some (Raised TypeError s)
                   | JObj kvs \<Rightarrow> Some (Raised TypeError s)
                   | _ \<Rightarrow> Some (Done s))
             else Some (Done s))
      else
        Some (send_error env websocket ''UNKNOWN_EVENT'' ''Unknown event type'' s))"

text \<open>
  The \<^verbatim>\<open>while True\<close> loop. The frames the peer sends are text frames, each given by what
  \<^verbatim>\<open>json.loads\<close> makes of it (\<open>None\<close> for \<^verbatim>\<open>JSONDecodeError\<close>); after the last one the
  peer closes and \<^verbatim>\<open>receive_text\<close> raises \<^verbatim>\<open>WebSocketDisconnect\<close>. The loop never
  returns: its outcome is the exception that leaves it.
\<close>

fun read_loop :: "env \<Rightarrow> websocket \<Rightarrow> User \<Rightarrow> jval option list \<Rightarrow> world \<Rightarrow> outcome option" where
  "read_loop env websocket user [] s = Some (Raised WebSocketDisconnect s)"
| "read_loop env websocket user (None # frames) s =
     (case send_error env websocket ''INVALID_JSON'' ''Invalid JSON format'' s of
        Raised e s1 \<Rightarrow> Some (Raised e s1)
      | Done s1 \<Rightarrow> read_loop env websocket user frames s1)"
| "read_loop env websocket user (Some message # frames) s =
     (case py_get message ''event'' JNull of
        None \<Rightarrow> Some (Raised AttributeError s)
      | Some event_type \<Rightarrow>
          (case py_get message ''data'' (JObj []) of
             None \<Rightarrow> Some (Raised AttributeError s)
           | Some event_data \<Rightarrow>
               (case handle_websocket_event env websocket user event_type event_data s of
                  None \<Rightarrow> None
                | Some (Raised e s1) \<Rightarrow>
                    if e = JSONDecodeError
                    then (case send_error env websocket ''INVALID_JSON'' ''Invalid JSON format'' s1 of
                            Raised e' s2 \<Rightarrow> Some (Raised e' s2)
                          | Done s2 \<Rightarrow> read_loop env websocket user frames s2)
                    else Some (Raised e s1)
                | Some (Done s1) \<Rightarrow> read_loop env websocket user frames s1)))"

definition connected_data :: "User \<Rightarrow> nat \<Rightarrow> jval" where
  "connected_data user chat_count =
     JObj [(''user_id'', JStr (id_str user)), (''username'', JStr (username user)),
           (''chat_count'', JNum (int chat_count))]"

text \<open>
  The endpoint's \<^verbatim>\<open>try\<close> block in two parts: the handshake, up to the connection
  acknowledgement, and the loop. Each is given back with the value of the variable
  \<^verbatim>\<open>user\<close> at that point, which the handlers read. An outcome \<open>Done\<close> of the handshake with
  no user is one of the two early \<^verbatim>\<open>return\<close>s.
\<close>

definition handshake ::
  "env \<Rightarrow> websocket \<Rightarrow> string option \<Rightarrow> world \<Rightarrow> (User option \<times> outcome) option" where
  "handshake env websocket token s =
     (case token of
        None \<Rightarrow> Some (None, close websocket 4001 s)
      | Some tok \<Rightarrow>
          if tok = [] then Some (None, close websocket 4001 s)
          else (case get_user_from_token env tok of
                  None \<Rightarrow> Some (None, close websocket 4001 s)
                | Some user \<Rightarrow>
                    (let user_id = id_str user in
                     case connect websocket user_id s of
                       None \<Rightarrow> None
                     | Some (Raised e s1) \<Rightarrow> Some (Some user, Raised e s1)
                     | Some (Done s1) \<Rightarrow>
                         (let chat_ids = get_user_chat_ids env user_id;
                              s2 = fold (subscribe_to_chat user_id) chat_ids s1
                          in Some (Some user,
                                   send_json env websocket CONNECT
                                     (connected_data user (length chat_ids)) s2)))))"

definition try_body ::
  "env \<Rightarrow> websocket \<Rightarrow> string option \<Rightarrow> jval option list \<Rightarrow> world \<Rightarrow>
   (User option \<times> outcome) option" where
  "try_body env websocket token frames s =
     (case handshake env websocket token s of
        None \<Rightarrow> None
      | Some (None, r) \<Rightarrow> Some (None, r)
      | Some (Some user, Raised e s1) \<Rightarrow> Some (Some user, Raised e s1)
      | Some (Some user, Done s1) \<Rightarrow>
          map_option (Pair (Some user)) (read_loop env websocket user frames s1))"

text \<open>The two \<^verbatim>\<open>except\<close> clauses of the endpoint.\<close>

definition on_exception :: "websocket \<Rightarrow> User option \<Rightarrow> exn \<Rightarrow> world \<Rightarrow> world option" where
  "on_exception websocket user e s =
     (if e = WebSocketDisconnect
      then (case user of
              None \<Rightarrow> Some s
            | Some u \<Rightarrow> disconnect websocket (id_str u) s)
      else (case (case user of
                    None \<Rightarrow> Some s
                  | Some u \<Rightarrow> disconnect websocket (id_str u) s) of
              None \<Rightarrow> None
            | Some s1 \<Rightarrow> Some (world_of (close websocket 4000 s1))))"

definition websocket_endpoint ::
  "env \<Rightarrow> websocket \<Rightarrow> string option \<Rightarrow> jval option list \<Rightarrow> world \<Rightarrow> world option" where
  "websocket_endpoint env websocket token frames s =
     (case try_body env websocket token frames s of
        None \<Rightarrow> None
      | Some (user, Done s1) \<Rightarrow> Some s1
      | Some (user, Raised e s1) \<Rightarrow> on_exception websocket user e s1)"

subsection \<open>Sequences of manager calls\<close>

datatype call =
    Connect websocket user_id
  | Disconnect websocket user_id
  | Subscribe user_id chat_id
  | Unsubscribe user_id chat_id

text \<open>An exception of \<^verbatim>\<open>connect\<close> goes to its caller; the manager keeps its state.\<close>

fun run :: "call list \<Rightarrow> world \<Rightarrow> world option" where
  "run [] s = Some s"
| "run (Connect ws u # calls) s =
     (case connect ws u s of None \<Rightarrow> None | Some r \<Rightarrow> run calls (world_of r))"
| "run (Disconnect ws u # calls) s =
     (case disconnect ws u s of None \<Rightarrow> None | Some s1 \<Rightarrow> run calls s1)"
| "run (Subscribe u c # calls) s = run calls (subscribe_to_chat u c s)"
| "run (Unsubscribe u c # calls) s = run calls (unsubscribe_from_chat u c s)"

subsection \<open>Well-formed worlds\<close>

text \<open>
  The registry as the program keeps it: one entry per user, each with a non-empty list of
  distinct transports that have been accepted, and no transport under two users.
\<close>

definition registry_ok :: "world \<Rightarrow> bool" where
  "registry_ok s \<longleftrightarrow>
     distinct (map fst (active_connections s)) \<and>
     (\<forall>(u, conns) \<in> set (active_connections s).
        conns \<noteq> [] \<and> distinct conns \<and>
        (\<forall>ws \<in> set conns. application_state s ws \<noteq> CONNECTING)) \<and>
     (\<forall>(u, cu) \<in> set (active_connections s). \<forall>(v, cv) \<in> set (active_connections s).
        u \<noteq> v \<longrightarrow> set cu \<inter> set cv = {})"

text \<open>A dict has one entry per key, and a \<^verbatim>\<open>set\<close> holds a user id once.\<close>

definition subscriptions_ok :: "world \<Rightarrow> bool" where
  "subscriptions_ok s \<longleftrightarrow>
     distinct (map fst (chat_subscriptions s)) \<and>
     (\<forall>(c, users) \<in> set (chat_subscriptions s). distinct users)"

text \<open>
  The frames a broadcast writes when no write fails: one per connection of every user of
  \<open>users\<close> that is not excluded.
\<close>

definition fanout :: "world \<Rightarrow> WSEventType \<Rightarrow> jval \<Rightarrow> user_id option \<Rightarrow> user_id list \<Rightarrow> io list" where
  "fanout s event data exclude_user users =
     concat (map (\<lambda>u. map (\<lambda>ws. Sent ws event data) (ConnectionsOf s u))
               (filter (\<lambda>u. \<not> excluded exclude_user u) users))"

subsection \<open>Notions the statements below use\<close>

text \<open>
  The entries the sending loop appends to \<open>wire\<close>: one for each connection, in order.
\<close>

definition attempts :: "world \<Rightarrow> WSEventType \<Rightarrow> jval \<Rightarrow> websocket list \<Rightarrow> io list" where
  "attempts s event data conns =
     map (\<lambda>ws. if writable s ws then Sent ws event data else SendFailed ws event data) conns"

text \<open>
  A relation between the world before and the world after that holds of every step of
  the disconnect path when it is reflexive, transitive and blind to what is appended to
  \<open>wire\<close>.
\<close>

definition step_closed :: "(world \<Rightarrow> world \<Rightarrow> bool) \<Rightarrow> bool" where
  "step_closed R \<longleftrightarrow>
     (\<forall>s. R s s) \<and> (\<forall>a b c. R a b \<longrightarrow> R b c \<longrightarrow> R a c) \<and>
     (\<forall>s w. R s (s\<lparr>wire := wire s @ w\<rparr>))"

text \<open>
  The keys present in Redis.
\<close>

definition redis_keys :: "world \<Rightarrow> redis_key set" where
  "redis_keys s = (case redis s of None \<Rightarrow> {} | Some ks \<Rightarrow> set ks)"

text \<open>
  What the disconnect path and the broadcasts can do to the world: they write to the wire,
  drop connections and registry entries, and delete presence keys; they leave the
  subscriptions and the transports as they are, and they keep the registry well formed.
\<close>

definition evolves :: "world \<Rightarrow> world \<Rightarrow> bool" where
  "evolves s s' \<longleftrightarrow>
     chat_subscriptions s' = chat_subscriptions s \<and>
     states s' = states s \<and> broken s' = broken s \<and>
     (\<exists>out. wire s' = wire s @ out) \<and>
     length (active_connections s') \<le> length (active_connections s) \<and>
     (\<forall>u. map_of (active_connections s) u = None \<longrightarrow> map_of (active_connections s') u = None) \<and>
     (\<forall>u. set (ConnectionsOf s' u) \<subseteq> set (ConnectionsOf s u)) \<and>
     redis_keys s' \<subseteq> redis_keys s \<and>
     (registry_ok s \<longrightarrow> registry_ok s')"

text \<open>
  A small installation for the instances below: two users, three chats, and Bob's
  membership of the third chat inactive.
\<close>

definition alice :: User where
  "alice = \<lparr>id_str = ''u-alice'', username = ''Alice''\<rparr>"

definition bob :: User where
  "bob = \<lparr>id_str = ''u-bob'', username = ''Bob''\<rparr>"

definition demo_env :: env where
  "demo_env =
     \<lparr>jwt_decode = (\<lambda>t. if t = ''token-alice'' then Some [(''type'', ''access''), (''sub'', ''u-alice'')]
                        else if t = ''token-bob'' then Some [(''type'', ''access''), (''sub'', ''u-bob'')]
                        else if t = ''refresh-alice'' then Some [(''type'', ''refresh''), (''sub'', ''u-alice'')]
                        else None),
      user_rows = [alice, bob],
      member_table =
        [\<lparr>member_chat_id = ''c1'', member_user_id = ''u-alice'', is_active = True\<rparr>,
         \<lparr>member_chat_id = ''c1'', member_user_id = ''u-bob'', is_active = True\<rparr>,
         \<lparr>member_chat_id = ''c2'', member_user_id = ''u-alice'', is_active = True\<rparr>,
         \<lparr>member_chat_id = ''c2'', member_user_id = ''u-bob'', is_active = True\<rparr>,
         \<lparr>member_chat_id = ''c3'', member_user_id = ''u-bob'', is_active = False\<rparr>],
      is_uuid = (\<lambda>x. x \<in> set [''c1'', ''c2'', ''c3'', ''u-alice'', ''u-bob'']),
      write_error = WebSocketDisconnect\<rparr>"

text \<open>
  The world of a process that has just started.
\<close>

definition fresh :: world where
  "fresh = \<lparr>active_connections = [], chat_subscriptions = [], redis = Some [],
            states = [], broken = [], wire = []\<rparr>"

text \<open>
  The event kinds \<^verbatim>\<open>handle_websocket_event\<close> has a branch for.
\<close>

definition recognized :: "jval list" where
  "recognized =
     [JStr (value_of PING), JStr (value_of TYPING_START), JStr (value_of TYPING_STOP),
      JStr (value_of MESSAGE_READ), JStr ''subscribe'', JStr ''unsubscribe'']"

text \<open>
  The world once Alice has connected on transport 1.
\<close>

definition alice_online :: world where
  "alice_online =
     \<lparr>active_connections = [(''u-alice'', [1])],
      chat_subscriptions = [(''c1'', [''u-alice'']), (''c2'', [''u-alice''])],
      redis = Some [Online ''u-alice''], states = [(1, CONNECTED)], broken = [], wire = []\<rparr>"

text \<open>
  Alice connected on transports 1 and 3, Bob on transport 2, both subscribed to both
  chats.
\<close>

definition two_devices :: world where
  "two_devices =
     \<lparr>active_connections = [(''u-alice'', [1, 3]), (''u-bob'', [2])],
      chat_subscriptions = [(''c1'', [''u-bob'', ''u-alice'']), (''c2'', [''u-bob'', ''u-alice''])],
      redis = Some [Online ''u-bob'', Online ''u-alice''],
      states = [(1, CONNECTED), (2, CONNECTED), (3, CONNECTED)], broken = [], wire = []\<rparr>"


text \<open>
  Alice and Bob connected on one transport each and subscribed to both chats.
\<close>

definition after_alice_and_bob :: world where
  "after_alice_and_bob =
     \<lparr>active_connections = [(''u-alice'', [1]), (''u-bob'', [2])],
      chat_subscriptions = [(''c1'', [''u-bob'', ''u-alice'']), (''c2'', [''u-bob'', ''u-alice''])],
      redis = Some [Online ''u-bob'', Online ''u-alice''],
      states = [(1, CONNECTED), (2, CONNECTED)], broken = [], wire = []\<rparr>"

text \<open>
  As \<open>two_devices\<close>, with the peers of both of Alice's transports gone.
\<close>

definition alice_unreachable :: world where
  "alice_unreachable =
     \<lparr>active_connections = [(''u-alice'', [1, 3]), (''u-bob'', [2])],
      chat_subscriptions = [(''c1'', [''u-bob'', ''u-alice'']), (''c2'', [''u-bob'', ''u-alice''])],
      redis = Some [Online ''u-bob'', Online ''u-alice''],
      states = [(1, CONNECTED), (2, CONNECTED), (3, CONNECTED)], broken = [1, 3], wire = []\<rparr>"

section \<open>Facts about the model\<close>

lemma application_state_updates [simp]:
  "application_state (s\<lparr>wire := w\<rparr>) = application_state s"
  "application_state (s\<lparr>active_connections := ac\<rparr>) = application_state s"
  "application_state (s\<lparr>chat_subscriptions := cs\<rparr>) = application_state s"
  "application_state (s\<lparr>redis := r\<rparr>) = application_state s"
  by (simp_all add: application_state_def fun_eq_iff)

lemma writable_updates [simp]:
  "writable (s\<lparr>wire := w\<rparr>) = writable s"
  "writable (s\<lparr>active_connections := ac\<rparr>) = writable s"
  "writable (s\<lparr>chat_subscriptions := cs\<rparr>) = writable s"
  "writable (s\<lparr>redis := r\<rparr>) = writable s"
  by (simp_all add: writable_def fun_eq_iff)

lemma writable_cong:
  "states s' = states s \<Longrightarrow> broken s' = broken s \<Longrightarrow> writable s' = writable s"
  by (simp add: writable_def application_state_def fun_eq_iff)

lemma send_each_eq:
  "send_each ev d conns s =
     (filter (\<lambda>ws. \<not> writable s ws) conns, s\<lparr>wire := wire s @ attempts s ev d conns\<rparr>)"
proof (induction conns arbitrary: s)
  case Nil
  show ?case by (simp add: attempts_def)
next
  case (Cons ws wss)
  show ?case by (simp add: Cons attempts_def)
qed

lemma for_each_rel:
  assumes step: "\<And>x t t'. x \<in> set xs \<Longrightarrow> body x t = Some t' \<Longrightarrow> R t t'"
    and refl: "\<And>t. R t t"
    and trans: "\<And>a b c. R a b \<Longrightarrow> R b c \<Longrightarrow> R a c"
    and run: "for_each body xs s = Some s'"
  shows "R s s'"
  using step run
proof (induction xs arbitrary: s)
  case Nil
  then show ?case by (simp add: refl)
next
  case (Cons x xs)
  from Cons.prems(2) obtain t where t: "body x s = Some t" and rest: "for_each body xs t = Some s'"
    by (auto simp: bind_eq_Some_conv)
  have "R s t" by (rule Cons.prems(1)[of x]) (simp_all add: t)
  moreover have "R t s'"
  proof (rule Cons.IH[OF _ rest])
    fix y a b assume "y \<in> set xs" "body y a = Some b"
    then show "R a b" by (intro Cons.prems(1)[of y]) simp_all
  qed
  ultimately show ?case by (rule trans)
qed

lemma for_each_total:
  assumes "I s" and "\<And>x t. x \<in> set xs \<Longrightarrow> I t \<Longrightarrow> \<exists>t'. body x t = Some t' \<and> I t'"
  shows "\<exists>s'. for_each body xs s = Some s' \<and> I s'"
  using assms
proof (induction xs arbitrary: s)
  case Nil
  then show ?case by simp
next
  case (Cons x xs)
  from Cons.prems obtain t where t: "body x s = Some t" "I t" by fastforce
  from Cons.IH[OF t(2)] Cons.prems(2) obtain s' where "for_each body xs t = Some s'" "I s'"
    by auto
  with t show ?case by simp
qed

lemma step_closedD:
  assumes "step_closed R"
  shows "R s s" and "R a b \<Longrightarrow> R b c \<Longrightarrow> R a c" and "R s (s\<lparr>wire := wire s @ w\<rparr>)"
  using assms unfolding step_closed_def by blast+

lemma broadcast_to_chat_with_rel:
  assumes R: "step_closed R"
    and disc: "\<And>ws u t t'. disc ws u t = Some t' \<Longrightarrow> R t t'"
    and run: "broadcast_to_chat_with disc c ev d ex s = Some s'"
  shows "R s s'"
proof (cases "map_of (chat_subscriptions s) c")
  case None
  with run show ?thesis by (simp add: broadcast_to_chat_with_def step_closedD(1)[OF R])
next
  case (Some users)
  have body: "R t t'"
    if "(if excluded ex u then Some t
         else case map_of (active_connections t) u of
                None \<Rightarrow> Some t
              | Some conns \<Rightarrow>
                  (let (disconnected, s2) = send_each ev d conns t
                   in for_each (\<lambda>ws. disc ws u) disconnected s2)) = Some t'" for u t t'
  proof (cases "excluded ex u \<or> map_of (active_connections t) u = None")
    case True
    with that show ?thesis by (auto simp: step_closedD(1)[OF R] split: if_splits)
  next
    case False
    then obtain conns where conns: "map_of (active_connections t) u = Some conns" by auto
    let ?t1 = "t\<lparr>wire := wire t @ attempts t ev d conns\<rparr>"
    from that False conns
    have "for_each (\<lambda>ws. disc ws u) (filter (\<lambda>ws. \<not> writable t ws) conns) ?t1 = Some t'"
      by (simp add: send_each_eq)
    then have "R ?t1 t'"
      by (rule for_each_rel[rotated -1]) (auto intro: disc step_closedD[OF R])
    with step_closedD(3)[OF R, of t] show ?thesis
      by (blast intro: step_closedD(2)[OF R])
  qed
  from run Some show ?thesis
    unfolding broadcast_to_chat_with_def
    by (simp only: option.case) (rule for_each_rel[rotated -1], assumption,
        auto intro: body step_closedD[OF R])
qed

lemma broadcast_user_status_with_rel:
  assumes R: "step_closed R"
    and disc: "\<And>ws u t t'. disc ws u t = Some t' \<Longrightarrow> R t t'"
    and run: "broadcast_user_status_with disc u st s = Some s'"
  shows "R s s'"
  using run unfolding broadcast_user_status_with_def Let_def
  by (rule for_each_rel[rotated -1])
     (auto intro: step_closedD[OF R] broadcast_to_chat_with_rel[OF R disc] split: if_splits)

lemma disconnect_rel:
  assumes R: "step_closed R"
    and del: "\<And>s u conns. map_of (active_connections s) u = Some conns \<Longrightarrow>
                R s (set_user_offline u (s\<lparr>active_connections := AList.delete u (active_connections s)\<rparr>))"
    and upd: "\<And>s u ws conns. map_of (active_connections s) u = Some conns \<Longrightarrow> ws \<in> set conns \<Longrightarrow>
                remove1 ws conns \<noteq> [] \<Longrightarrow>
                R s (s\<lparr>active_connections := AList.update u (remove1 ws conns) (active_connections s)\<rparr>)"
    and run: "disconnect ws u s = Some s'"
  shows "R s s'"
proof (rule disconnect.raw_induct[where P = "\<lambda>ws u s s'. R s s'", OF _ run])
  fix disc ws u s s'
  assume IH: "\<And>ws u s s'. disc ws u s = Some s' \<Longrightarrow> R s s'"
    and eq: "(case map_of (active_connections s) u of None \<Rightarrow> Some s
      | Some conns \<Rightarrow>
          let conns' = if ws \<in> set conns then remove1 ws conns else conns
          in if conns' = []
             then broadcast_user_status_with disc u ''offline''
                   (set_user_offline u
                     (s\<lparr>active_connections := AList.delete u (active_connections s)\<rparr>))
             else Some (s\<lparr>active_connections :=
                              AList.update u conns' (active_connections s)\<rparr>)) = Some s'"
  note 1 = IH eq
  show "R s s'"
  proof (cases "map_of (active_connections s) u")
    case None
    with 1(2) show ?thesis by (simp add: step_closedD(1)[OF R])
  next
    case (Some conns)
    let ?conns' = "if ws \<in> set conns then remove1 ws conns else conns"
    show ?thesis
    proof (cases "?conns' = []")
      case True
      let ?s1 = "set_user_offline u (s\<lparr>active_connections := AList.delete u (active_connections s)\<rparr>)"
      from 1(2) Some True have "broadcast_user_status_with disc u ''offline'' ?s1 = Some s'"
        by (simp add: Let_def)
      then have "R ?s1 s'"
        by (rule broadcast_user_status_with_rel[OF R, rotated]) (rule 1(1))
      with del[OF Some] show ?thesis by (blast intro: step_closedD(2)[OF R])
    next
      case False
      with 1(2) Some
      have s': "s' = s\<lparr>active_connections := AList.update u ?conns' (active_connections s)\<rparr>"
        by (simp add: Let_def)
      show ?thesis
      proof (cases "ws \<in> set conns")
        case True
        with False s' upd[OF Some True] show ?thesis by simp
      next
        case False
        then have "s' = s" using s' Some by (simp add: AList.update_triv)
        then show ?thesis by (simp add: step_closedD(1)[OF R])
      qed
    qed
  qed
qed

lemma registry_ok_alt:
  "registry_ok s \<longleftrightarrow>
     distinct (map fst (active_connections s)) \<and>
     (\<forall>u conns. map_of (active_connections s) u = Some conns \<longrightarrow>
        conns \<noteq> [] \<and> distinct conns \<and> (\<forall>ws \<in> set conns. application_state s ws \<noteq> CONNECTING)) \<and>
     (\<forall>u v cu cv. map_of (active_connections s) u = Some cu \<longrightarrow>
        map_of (active_connections s) v = Some cv \<longrightarrow> u \<noteq> v \<longrightarrow> set cu \<inter> set cv = {})"
proof (cases "distinct (map fst (active_connections s))")
  case True
  then show ?thesis
    unfolding registry_ok_def by (simp add: map_of_eq_Some_iff[OF True]) blast
next
  case False
  then show ?thesis by (simp add: registry_ok_def)
qed

lemma evolves_refl: "evolves s s"
  by (simp add: evolves_def)

lemma evolves_trans: "evolves a b \<Longrightarrow> evolves b c \<Longrightarrow> evolves a c"
  unfolding evolves_def by (elim conjE exE, intro conjI) (auto, blast+)

lemma registry_ok_wire [simp]: "registry_ok (s\<lparr>wire := w\<rparr>) = registry_ok s"
  by (simp add: registry_ok_def)

lemma registry_ok_redis [simp]: "registry_ok (s\<lparr>redis := w\<rparr>) = registry_ok s"
  by (simp add: registry_ok_def)

lemma registry_ok_subs [simp]: "registry_ok (s\<lparr>chat_subscriptions := w\<rparr>) = registry_ok s"
  by (simp add: registry_ok_def)

lemma ConnectionsOf_updates [simp]:
  "ConnectionsOf (s\<lparr>wire := w\<rparr>) = ConnectionsOf s"
  "ConnectionsOf (s\<lparr>redis := r\<rparr>) = ConnectionsOf s"
  "ConnectionsOf (s\<lparr>chat_subscriptions := cs\<rparr>) = ConnectionsOf s"
  "ConnectionsOf (s\<lparr>states := st\<rparr>) = ConnectionsOf s"
  by (simp_all add: ConnectionsOf_def fun_eq_iff)

lemma redis_keys_updates [simp]:
  "redis_keys (s\<lparr>wire := w\<rparr>) = redis_keys s"
  "redis_keys (s\<lparr>active_connections := ac\<rparr>) = redis_keys s"
  "redis_keys (s\<lparr>chat_subscriptions := cs\<rparr>) = redis_keys s"
  by (simp_all add: redis_keys_def)

lemma evolves_wire: "evolves s (s\<lparr>wire := wire s @ w\<rparr>)"
  by (simp add: evolves_def)

lemma step_closed_evolves: "step_closed evolves"
  unfolding step_closed_def
  by (blast intro: evolves_refl evolves_trans evolves_wire)

lemma registry_okD:
  assumes "registry_ok s"
  shows "distinct (map fst (active_connections s))"
    and "map_of (active_connections s) u = Some conns \<Longrightarrow>
           conns \<noteq> [] \<and> distinct conns \<and> (\<forall>ws \<in> set conns. application_state s ws \<noteq> CONNECTING)"
    and "map_of (active_connections s) u = Some cu \<Longrightarrow> map_of (active_connections s) v = Some cv \<Longrightarrow>
           u \<noteq> v \<Longrightarrow> set cu \<inter> set cv = {}"
  using assms unfolding registry_ok_alt by blast+

lemma registry_ok_delete:
  assumes "registry_ok s"
  shows "registry_ok (s\<lparr>active_connections := AList.delete u (active_connections s)\<rparr>)"
proof -
  let ?al = "active_connections s"
  have m: "map_of (AList.delete u ?al) v = (if v = u then None else map_of ?al v)" for v
    by (simp add: AList.delete_conv')
  show ?thesis
    unfolding registry_ok_alt
  proof (intro conjI allI impI)
    show "distinct (map fst (active_connections (s\<lparr>active_connections := AList.delete u ?al\<rparr>)))"
      using registry_okD(1)[OF assms] by (simp add: AList.distinct_delete)
  qed (use registry_okD(2,3)[OF assms] in \<open>auto simp: m split: if_splits simp del: map_of_eq_Some_iff\<close>)
qed

lemma registry_ok_remove1:
  assumes "registry_ok s" and "map_of (active_connections s) u = Some conns"
    and "remove1 ws conns \<noteq> []"
  shows "registry_ok (s\<lparr>active_connections :=
            AList.update u (remove1 ws conns) (active_connections s)\<rparr>)"
proof -
  let ?al = "active_connections s"
  have sub: "set (remove1 ws conns) \<subseteq> set conns" by (rule set_remove1_subset)
  have m: "map_of (AList.update u r ?al) v = (if v = u then Some r else map_of ?al v)" for v r
    by (simp add: AList.update_conv')
  note old = registry_okD(2)[OF assms(1) assms(2)]
  show ?thesis
    unfolding registry_ok_alt
  proof (intro conjI allI impI)
    show "distinct (map fst (active_connections
            (s\<lparr>active_connections := AList.update u (remove1 ws conns) ?al\<rparr>)))"
      using registry_okD(1)[OF assms(1)] by (simp add: AList.distinct_update)
  next
    fix a b ca cb
    assume a: "map_of (active_connections
                (s\<lparr>active_connections := AList.update u (remove1 ws conns) ?al\<rparr>)) a = Some ca"
      and b: "map_of (active_connections
                (s\<lparr>active_connections := AList.update u (remove1 ws conns) ?al\<rparr>)) b = Some cb"
      and ne: "a \<noteq> b"
    have "\<exists>ca'. map_of ?al a = Some ca' \<and> set ca \<subseteq> set ca'"
      using a sub assms(2) by (auto simp: m split: if_splits simp del: map_of_eq_Some_iff)
    moreover have "\<exists>cb'. map_of ?al b = Some cb' \<and> set cb \<subseteq> set cb'"
      using b sub assms(2) by (auto simp: m split: if_splits simp del: map_of_eq_Some_iff)
    ultimately show "set ca \<inter> set cb = {}"
      using registry_okD(3)[OF assms(1) _ _ ne] by blast
  qed (use registry_okD(2)[OF assms(1)] old sub assms(3) in
        \<open>auto simp: m split: if_splits simp del: map_of_eq_Some_iff\<close>)
qed

lemma length_update_present:
  "map_of al k = Some v \<Longrightarrow> length (AList.update k v' al) = length al"
  by (induction al) (auto split: if_splits)

lemma evolves_delete:
  assumes "map_of (active_connections s) u = Some conns"
  shows "evolves s (set_user_offline u
           (s\<lparr>active_connections := AList.delete u (active_connections s)\<rparr>))"
  unfolding evolves_def set_user_offline_def
  by (auto simp: AList.length_delete_le AList.delete_conv' ConnectionsOf_def redis_keys_def
        registry_ok_delete split: option.splits)

lemma evolves_remove1:
  assumes "map_of (active_connections s) u = Some conns" and "remove1 ws conns \<noteq> []"
  shows "evolves s (s\<lparr>active_connections :=
            AList.update u (remove1 ws conns) (active_connections s)\<rparr>)"
proof -
  have len: "length (AList.update u (remove1 ws conns) (active_connections s))
               = length (active_connections s)"
    using assms(1) by (rule length_update_present)
  show ?thesis
    unfolding evolves_def
    using assms set_remove1_subset[of ws conns]
    by (auto simp: len AList.update_conv' ConnectionsOf_def registry_ok_remove1
        split: option.splits)
qed

lemma disconnect_evolves: "disconnect ws u s = Some s' \<Longrightarrow> evolves s s'"
  by (erule disconnect_rel[OF step_closed_evolves, rotated -1])
     (auto intro: evolves_delete evolves_remove1)

lemma broadcast_user_status_evolves:
  "broadcast_user_status u st s = Some s' \<Longrightarrow> evolves s s'"
  unfolding broadcast_user_status_def
  by (erule broadcast_user_status_with_rel[OF step_closed_evolves, rotated])
     (rule disconnect_evolves)

lemma broadcast_to_chat_evolves:
  "broadcast_to_chat c ev d ex s = Some s' \<Longrightarrow> evolves s s'"
  unfolding broadcast_to_chat_def
  by (erule broadcast_to_chat_with_rel[OF step_closed_evolves, rotated])
     (rule disconnect_evolves)

lemma length_delete_less:
  "map_of al k = Some v \<Longrightarrow> length (AList.delete k al) < length al"
  by (induction al) (auto split: if_splits simp: less_Suc_eq_le AList.length_delete_le)

lemma evolves_length: "evolves s s' \<Longrightarrow> length (active_connections s') \<le> length (active_connections s)"
  by (simp add: evolves_def)

lemma broadcast_to_chat_with_total:
  assumes tot: "\<And>ws u t. length (active_connections t) \<le> n \<Longrightarrow> \<exists>t'. disc ws u t = Some t'"
    and ev: "\<And>ws u t t'. disc ws u t = Some t' \<Longrightarrow> evolves t t'"
    and len: "length (active_connections s) \<le> n"
  shows "\<exists>s'. broadcast_to_chat_with disc c ev d ex s = Some s' \<and> length (active_connections s') \<le> n"
proof (cases "map_of (chat_subscriptions s) c")
  case None
  with len show ?thesis by (simp add: broadcast_to_chat_with_def)
next
  case (Some users)
  have prune: "\<exists>t'. for_each (\<lambda>ws. disc ws u) dis t = Some t' \<and> length (active_connections t') \<le> n"
    if "length (active_connections t) \<le> n" for u dis and t :: world
    using that
  proof (rule for_each_total)
    fix ws and t1 :: world assume "length (active_connections t1) \<le> n"
    with tot[of t1 ws u] ev[of ws u t1] evolves_length
    show "\<exists>t'. disc ws u t1 = Some t' \<and> length (active_connections t') \<le> n"
      by (metis le_trans)
  qed
  have "\<exists>s'. for_each (\<lambda>user_id s1.
             if excluded ex user_id then Some s1
             else (case map_of (active_connections s1) user_id of
                     None \<Rightarrow> Some s1
                   | Some conns \<Rightarrow>
                       (let (disconnected, s2) = send_each ev d conns s1
                        in for_each (\<lambda>ws. disc ws user_id) disconnected s2)))
            users s = Some s' \<and> length (active_connections s') \<le> n"
    using len
  proof (rule for_each_total)
    fix u and t :: world assume t: "length (active_connections t) \<le> n"
    show "\<exists>t'. (if excluded ex u then Some t
             else (case map_of (active_connections t) u of
                     None \<Rightarrow> Some t
                   | Some conns \<Rightarrow>
                       (let (disconnected, s2) = send_each ev d conns t
                        in for_each (\<lambda>ws. disc ws u) disconnected s2))) = Some t'
               \<and> length (active_connections t') \<le> n"
    proof (cases "excluded ex u \<or> map_of (active_connections t) u = None")
      case True
      with t show ?thesis by auto
    next
      case False
      then obtain conns where "map_of (active_connections t) u = Some conns" by auto
      with False prune[of "t\<lparr>wire := wire t @ attempts t ev d conns\<rparr>" u] t
      show ?thesis by (simp add: send_each_eq)
    qed
  qed
  with Some show ?thesis by (simp add: broadcast_to_chat_with_def)
qed

lemma broadcast_user_status_with_total:
  assumes tot: "\<And>ws u t. length (active_connections t) \<le> n \<Longrightarrow> \<exists>t'. disc ws u t = Some t'"
    and ev: "\<And>ws u t t'. disc ws u t = Some t' \<Longrightarrow> evolves t t'"
    and len: "length (active_connections s) \<le> n"
  shows "\<exists>s'. broadcast_user_status_with disc u st s = Some s' \<and> length (active_connections s') \<le> n"
  unfolding broadcast_user_status_with_def Let_def
  using len
proof (rule for_each_total)
  fix x :: "chat_id \<times> user_id list" and t :: world assume t: "length (active_connections t) \<le> n"
  obtain c us where x: "x = (c, us)" by (cases x)
  show "\<exists>t'. (case x of (chat_id, users) \<Rightarrow> \<lambda>s1.
            if u \<in> set users
            then broadcast_to_chat_with disc chat_id
                   (if st = ''online'' then USER_ONLINE else USER_OFFLINE)
                   (WSUserStatus u st) (Some u) s1
            else Some s1) t = Some t' \<and> length (active_connections t') \<le> n"
    using broadcast_to_chat_with_total[OF tot ev t] t by (simp add: x)
qed

theorem disconnect_returns: "\<exists>s'. disconnect ws u s = Some s'"
proof (induction "length (active_connections s)" arbitrary: ws u s rule: less_induct)
  case less
  show ?case
  proof (cases "map_of (active_connections s) u")
    case None
    then show ?thesis by (subst disconnect.simps) simp
  next
    case (Some conns)
    let ?conns' = "if ws \<in> set conns then remove1 ws conns else conns"
    show ?thesis
    proof (cases "?conns' = []")
      case False
      with Some show ?thesis by (subst disconnect.simps) (simp add: Let_def)
    next
      case True
      let ?s1 = "set_user_offline u (s\<lparr>active_connections := AList.delete u (active_connections s)\<rparr>)"
      have lt: "length (active_connections ?s1) < length (active_connections s)"
        using length_delete_less[OF Some] by (simp add: set_user_offline_def)
      have "\<exists>s'. broadcast_user_status_with disconnect u ''offline'' ?s1 = Some s'
              \<and> length (active_connections s') \<le> length (active_connections ?s1)"
      proof (rule broadcast_user_status_with_total)
        fix ws' u' and t :: world assume "length (active_connections t) \<le> length (active_connections ?s1)"
        with lt have "length (active_connections t) < length (active_connections s)" by simp
        then show "\<exists>t'. disconnect ws' u' t = Some t'" by (rule less)
      qed (auto intro: disconnect_evolves)
      then obtain s' where "broadcast_user_status_with disconnect u ''offline'' ?s1 = Some s'"
        by blast
      with Some True show ?thesis by (subst disconnect.simps) (simp add: Let_def)
    qed
  qed
qed

lemma broadcast_user_status_returns: "\<exists>s'. broadcast_user_status u st s = Some s'"
  unfolding broadcast_user_status_def
  using broadcast_user_status_with_total[of "length (active_connections s)" disconnect s u st]
    disconnect_returns disconnect_evolves by blast

lemma broadcast_to_chat_returns: "\<exists>s'. broadcast_to_chat c ev d ex s = Some s'"
  unfolding broadcast_to_chat_def
  using broadcast_to_chat_with_total[of "length (active_connections s)" disconnect s c ev d ex]
    disconnect_returns disconnect_evolves by blast

lemma for_each_returns:
  assumes "\<And>x t. \<exists>t'. body x t = Some t'"
  shows "\<exists>s'. for_each body xs s = Some s'"
  using for_each_total[of "\<lambda>_. True" s xs body] assms by auto

lemma send_personal_message_returns: "\<exists>s'. send_personal_message u ev d s = Some s'"
  unfolding send_personal_message_def
  by (auto split: option.splits prod.splits intro!: for_each_returns disconnect_returns)

lemma connect_returns: "\<exists>r. connect ws u s = Some r"
  unfolding connect_def Let_def
  using broadcast_user_status_returns by (auto split: outcome.splits)

lemma for_each_skip:
  assumes "\<And>x t. x \<in> set xs \<Longrightarrow> body x t = Some t"
  shows "for_each body xs s = Some s"
  using assms by (induction xs) auto

lemma broadcast_user_status_unsubscribed:
  assumes "\<forall>(c, us) \<in> set (chat_subscriptions s). u \<notin> set us"
  shows "broadcast_user_status_with disc u st s = Some s"
  unfolding broadcast_user_status_with_def Let_def
  by (rule for_each_skip) (use assms in auto)

lemma chat_subscriptions_updates [simp]:
  "chat_subscriptions (set_user_online u s) = chat_subscriptions s"
  "chat_subscriptions (set_user_offline u s) = chat_subscriptions s"
  by (simp_all add: set_user_online_def set_user_offline_def)

lemma wire_presence [simp]:
  "wire (set_user_online u s) = wire s"
  "wire (set_user_offline u s) = wire s"
  by (simp_all add: set_user_online_def set_user_offline_def)

lemma wire_fold_subscribe [simp]: "wire (fold (subscribe_to_chat u) cs s) = wire s"
  by (induction cs arbitrary: s) (simp_all add: subscribe_to_chat_def)

lemma writable_fold_subscribe [simp]: "writable (fold (subscribe_to_chat u) cs s) = writable s"
  by (induction cs arbitrary: s) (simp_all add: subscribe_to_chat_def)

lemma ConnectionsOf_fold_subscribe [simp]:
  "ConnectionsOf (fold (subscribe_to_chat u) cs s) = ConnectionsOf s"
  by (induction cs arbitrary: s) (simp_all add: subscribe_to_chat_def)

lemma SubscribersOf_updates [simp]:
  "SubscribersOf (s\<lparr>wire := w\<rparr>) = SubscribersOf s"
  "SubscribersOf (s\<lparr>redis := r\<rparr>) = SubscribersOf s"
  "SubscribersOf (s\<lparr>active_connections := ac\<rparr>) = SubscribersOf s"
  "SubscribersOf (s\<lparr>states := st\<rparr>) = SubscribersOf s"
  by (simp_all add: SubscribersOf_def fun_eq_iff)

lemma SubscribersOf_subscribe:
  "set (SubscribersOf (subscribe_to_chat u c s) c') =
     (if c' = c then insert u (set (SubscribersOf s c')) else set (SubscribersOf s c'))"
  by (auto simp: subscribe_to_chat_def SubscribersOf_def AList.update_conv' split: option.splits)

lemma SubscribersOf_fold_subscribe:
  "set (SubscribersOf (fold (subscribe_to_chat u) cs s) c) =
     (if c \<in> set cs then insert u (set (SubscribersOf s c)) else set (SubscribersOf s c))"
  by (induction cs arbitrary: s) (auto simp: SubscribersOf_subscribe)

lemma connect_unsubscribed:
  assumes "\<forall>(c, us) \<in> set (chat_subscriptions s). u \<notin> set us"
  shows "connect ws u s =
           Some (if application_state s ws = CONNECTING
                 then Done (set_user_online u
                        (s\<lparr>states := AList.update ws CONNECTED (states s),
                           active_connections :=
                             AList.update u (ConnectionsOf s u @ [ws]) (active_connections s)\<rparr>))
                 else Raised RuntimeError s)"
  using assms
  by (simp add: connect_def accept_def Let_def broadcast_user_status_def
      broadcast_user_status_unsubscribed ConnectionsOf_def)


lemma world_of_close [simp]:
  "active_connections (world_of (close ws code s)) = active_connections s"
  "chat_subscriptions (world_of (close ws code s)) = chat_subscriptions s"
  "redis (world_of (close ws code s)) = redis s"
  by (simp_all add: close_def)

lemma ConnectionsOf_close [simp]: "ConnectionsOf (world_of (close ws code s)) = ConnectionsOf s"
  by (simp add: ConnectionsOf_def fun_eq_iff)

lemma application_state_accept:
  "application_state (s\<lparr>states := AList.update ws CONNECTED (states s)\<rparr>) w =
     (if w = ws then CONNECTED else application_state s w)"
  by (simp add: application_state_def AList.update_conv')

lemma registry_ok_register:
  assumes ok: "registry_ok s" and new: "application_state s ws = CONNECTING"
  shows "registry_ok (s\<lparr>states := AList.update ws CONNECTED (states s),
                        active_connections :=
                          AList.update u (ConnectionsOf s u @ [ws]) (active_connections s)\<rparr>)"
    (is "registry_ok ?s'")
proof -
  let ?al = "active_connections s"
  have m: "map_of (AList.update u r ?al) v = (if v = u then Some r else map_of ?al v)" for v r
    by (simp add: AList.update_conv')
  have unreg: "ws \<notin> set c" if "map_of ?al v = Some c" for v c
    using registry_okD(2)[OF ok that] new by auto
  have st: "application_state ?s' w = (if w = ws then CONNECTED else application_state s w)" for w
    by (simp add: application_state_def AList.update_conv')
  have cu: "set (ConnectionsOf s u) \<subseteq> set c \<or> ConnectionsOf s u = []"
    if "map_of ?al u = Some c" for c
    using that by (simp add: ConnectionsOf_def)
  have A: "distinct (map fst (active_connections ?s'))"
    using registry_okD(1)[OF ok] by (simp add: AList.distinct_update)
  have C: "set ca \<inter> set cb = {}"
    if a: "map_of (active_connections ?s') a = Some ca"
      and b: "map_of (active_connections ?s') b = Some cb" and ne: "a \<noteq> b" for a b ca cb
    proof (cases "a = u")
      case True
      with ne b have b': "map_of ?al b = Some cb" by (simp add: m)
      from True a have ca: "ca = ConnectionsOf s u @ [ws]" by (simp add: m)
      have "set (ConnectionsOf s u) \<inter> set cb = {}"
      proof (cases "map_of ?al u")
        case None then show ?thesis by (simp add: ConnectionsOf_def)
      next
        case (Some c)
        with registry_okD(3)[OF ok Some b'] True ne show ?thesis by (simp add: ConnectionsOf_def)
      qed
      with unreg[OF b'] ca show ?thesis by auto
    next
      case False
      with a have a': "map_of ?al a = Some ca" by (simp add: m)
      show ?thesis
      proof (cases "b = u")
        case True
        with b have cb: "cb = ConnectionsOf s u @ [ws]" by (simp add: m)
        have "set ca \<inter> set (ConnectionsOf s u) = {}"
        proof (cases "map_of ?al u")
          case None then show ?thesis by (simp add: ConnectionsOf_def)
        next
          case (Some c)
          with registry_okD(3)[OF ok a' Some] True ne show ?thesis by (simp add: ConnectionsOf_def)
        qed
        with unreg[OF a'] cb show ?thesis by auto
      next
        case False
        with b have "map_of ?al b = Some cb" by (simp add: m)
        from registry_okD(3)[OF ok a' this ne] show ?thesis .
      qed
    qed
  have B: "c \<noteq> [] \<and> distinct c \<and> (\<forall>w\<in>set c. application_state ?s' w \<noteq> CONNECTING)"
    if a: "map_of (active_connections ?s') a = Some c" for a c
    proof (cases "a = u")
      case True
      with a have c: "c = ConnectionsOf s u @ [ws]" by (simp add: m)
      have "distinct (ConnectionsOf s u) \<and> ws \<notin> set (ConnectionsOf s u) \<and>
            (\<forall>w\<in>set (ConnectionsOf s u). application_state s w \<noteq> CONNECTING)"
      proof (cases "map_of ?al u")
        case None then show ?thesis by (simp add: ConnectionsOf_def)
      next
        case (Some c')
        with registry_okD(2)[OF ok Some] unreg[OF Some] show ?thesis
          by (simp add: ConnectionsOf_def)
      qed
      with c show ?thesis by (auto simp: application_state_accept)
    next
      case False
      with a have "map_of ?al a = Some c" by (simp add: m)
      from registry_okD(2)[OF ok this] show ?thesis by (auto simp: application_state_accept)
    qed
  show ?thesis
    unfolding registry_ok_alt using A B C by blast
qed

lemma connect_registry_ok:
  assumes ok: "registry_ok s" and run: "connect ws u s = Some r"
  shows "registry_ok (world_of r)"
proof (cases "application_state s ws = CONNECTING")
  case False
  with run ok show ?thesis by (auto simp: connect_def accept_def)
next
  case True
  let ?s3 = "set_user_online u (s\<lparr>states := AList.update ws CONNECTED (states s),
                        active_connections :=
                          AList.update u (ConnectionsOf s u @ [ws]) (active_connections s)\<rparr>)"
  have ok3: "registry_ok ?s3"
    using registry_ok_register[OF ok True] by (simp add: set_user_online_def)
  from run True obtain s' where s': "broadcast_user_status u ''online'' ?s3 = Some s'" "r = Done s'"
    by (auto simp: connect_def accept_def Let_def ConnectionsOf_def)
  from broadcast_user_status_evolves[OF s'(1)] ok3 s'(2) show ?thesis
    by (simp add: evolves_def)
qed

lemma run_registry_ok:
  assumes "registry_ok s"
  shows "\<exists>s'. run calls s = Some s' \<and> registry_ok s'"
  using assms
proof (induction calls arbitrary: s)
  case Nil
  then show ?case by simp
next
  case (Cons a calls)
  show ?case
  proof (cases a)
    case (Connect ws u)
    obtain r where r: "connect ws u s = Some r" using connect_returns by blast
    from connect_registry_ok[OF Cons.prems r] Cons.IH r Connect show ?thesis by simp
  next
    case (Disconnect ws u)
    obtain s1 where s1: "disconnect ws u s = Some s1" using disconnect_returns by blast
    from disconnect_evolves[OF s1] Cons.prems have "registry_ok s1" by (simp add: evolves_def)
    with Cons.IH s1 Disconnect show ?thesis by simp
  next
    case (Subscribe u c)
    with Cons.IH[of "subscribe_to_chat u c s"] Cons.prems show ?thesis
      by (simp add: subscribe_to_chat_def)
  next
    case (Unsubscribe u c)
    with Cons.IH[of "unsubscribe_from_chat u c s"] Cons.prems show ?thesis
      by (simp add: unsubscribe_from_chat_def split: option.splits)
  qed
qed

lemma registry_ok_online:
  assumes "registry_ok s"
  shows "is_user_online u s \<longleftrightarrow> ConnectionsOf s u \<noteq> []"
  using registry_okD(2)[OF assms, of u]
  by (auto simp: is_user_online_def ConnectionsOf_def split: option.splits)

lemma send_each_quiet:
  assumes "\<forall>ws \<in> set conns. writable s ws"
  shows "send_each ev d conns s = ([], s\<lparr>wire := wire s @ map (\<lambda>ws. Sent ws ev d) conns\<rparr>)"
proof -
  have "filter (\<lambda>ws. \<not> writable s ws) conns = []" using assms by (simp add: filter_empty_conv)
  moreover have "attempts s ev d conns = map (\<lambda>ws. Sent ws ev d) conns"
    using assms by (simp add: attempts_def)
  ultimately show ?thesis by (simp add: send_each_eq)
qed

lemma fanout_Nil [simp]: "fanout s ev d ex [] = []"
  by (simp add: fanout_def)

lemma fanout_Cons:
  "fanout s ev d ex (u # us) =
     (if excluded ex u then [] else map (\<lambda>ws. Sent ws ev d) (ConnectionsOf s u)) @ fanout s ev d ex us"
  by (simp add: fanout_def)

lemma fanout_wire [simp]: "fanout (s\<lparr>wire := w\<rparr>) = fanout s"
  by (simp add: fanout_def fun_eq_iff)

lemma set_fanout:
  "set (fanout s ev d ex us) =
     {Sent ws ev d | ws u. u \<in> set us \<and> \<not> excluded ex u \<and> ws \<in> set (ConnectionsOf s u)}"
  by (induction us) (auto simp: fanout_Cons)

lemma for_each_users_quiet:
  assumes "\<forall>u \<in> set us. \<not> excluded ex u \<longrightarrow> (\<forall>ws \<in> set (ConnectionsOf s u). writable s ws)"
  shows "for_each (\<lambda>user_id s1.
             if excluded ex user_id then Some s1
             else (case map_of (active_connections s1) user_id of
                     None \<Rightarrow> Some s1
                   | Some conns \<Rightarrow>
                       (let (disconnected, s2) = send_each ev d conns s1
                        in for_each (\<lambda>ws. disc ws user_id) disconnected s2)))
            us (s\<lparr>wire := wire s @ acc\<rparr>)
         = Some (s\<lparr>wire := wire s @ acc @ fanout s ev d ex us\<rparr>)"
  using assms
proof (induction us arbitrary: acc)
  case Nil
  show ?case by simp
next
  case (Cons u us)
  show ?case
  proof (cases "excluded ex u")
    case True
    with Cons show ?thesis by (simp add: fanout_Cons)
  next
    case False
    show ?thesis
    proof (cases "map_of (active_connections s) u")
      case None
      with False Cons show ?thesis by (simp add: fanout_Cons ConnectionsOf_def)
    next
      case (Some conns)
      then have c: "ConnectionsOf s u = conns" by (simp add: ConnectionsOf_def)
      with Cons.prems False have "\<forall>ws \<in> set conns. writable (s\<lparr>wire := wire s @ acc\<rparr>) ws" by simp
      from send_each_quiet[OF this, of ev d] Some False c
        Cons.IH[of "acc @ map (\<lambda>ws. Sent ws ev d) conns"] Cons.prems
      show ?thesis by (simp add: fanout_Cons)
    qed
  qed
qed

lemma broadcast_to_chat_with_quiet:
  assumes "\<forall>u \<in> set (SubscribersOf s c). \<not> excluded ex u \<longrightarrow>
             (\<forall>ws \<in> set (ConnectionsOf s u). writable s ws)"
  shows "broadcast_to_chat_with disc c ev d ex s =
           Some (s\<lparr>wire := wire s @ fanout s ev d ex (SubscribersOf s c)\<rparr>)"
proof (cases "map_of (chat_subscriptions s) c")
  case None
  then show ?thesis by (simp add: broadcast_to_chat_with_def SubscribersOf_def)
next
  case (Some us)
  then have us: "SubscribersOf s c = us" by (simp add: SubscribersOf_def)
  from for_each_users_quiet[of us ex s ev d disc "[]"] assms us Some
  show ?thesis by (simp add: broadcast_to_chat_with_def)
qed

lemma count_list_map_Sent:
  "count_list (map (\<lambda>ws. Sent ws ev d) conns) (Sent w ev d) = count_list conns w"
  by (induction conns) auto

lemma count_list_distinct:
  "distinct xs \<Longrightarrow> count_list xs x = (if x \<in> set xs then 1 else 0)"
  by (induction xs) auto

lemma registry_ok_ConnectionsOf:
  assumes "registry_ok s"
  shows "distinct (ConnectionsOf s u)"
    and "u \<noteq> v \<Longrightarrow> set (ConnectionsOf s u) \<inter> set (ConnectionsOf s v) = {}"
proof -
  show "distinct (ConnectionsOf s u)"
    using registry_okD(2)[OF assms, of u] by (auto simp: ConnectionsOf_def split: option.splits)
  show "set (ConnectionsOf s u) \<inter> set (ConnectionsOf s v) = {}" if "u \<noteq> v"
  proof (cases "map_of (active_connections s) u")
    case None
    then show ?thesis by (simp add: ConnectionsOf_def)
  next
    case cu: (Some cu)
    show ?thesis
    proof (cases "map_of (active_connections s) v")
      case None
      then show ?thesis by (simp add: ConnectionsOf_def)
    next
      case (Some cv)
      from registry_okD(3)[OF assms cu Some that] cu Some show ?thesis
        by (simp add: ConnectionsOf_def)
    qed
  qed
qed

lemma count_fanout:
  assumes ok: "registry_ok s" and d: "distinct us" and w: "w \<in> set (ConnectionsOf s v)"
  shows "count_list (fanout s ev d ex us) (Sent w ev d) =
           (if v \<in> set us \<and> \<not> excluded ex v then 1 else 0)"
  using d
proof (induction us)
  case Nil
  show ?case by simp
next
  case (Cons u us)
  have here: "count_list (map (\<lambda>ws. Sent ws ev d) (ConnectionsOf s u)) (Sent w ev d) =
                (if u = v then 1 else 0)"
  proof (cases "u = v")
    case True
    with w registry_ok_ConnectionsOf(1)[OF ok, of v] show ?thesis
      by (simp add: count_list_map_Sent count_list_distinct)
  next
    case False
    with registry_ok_ConnectionsOf(2)[OF ok False] w have "w \<notin> set (ConnectionsOf s u)" by auto
    with False show ?thesis by (simp add: count_list_map_Sent)
  qed
  from Cons here show ?case by (auto simp: fanout_Cons)
qed

lemma subscriptions_ok_distinct:
  assumes "subscriptions_ok s"
  shows "distinct (SubscribersOf s c)"
proof (cases "map_of (chat_subscriptions s) c")
  case None
  then show ?thesis by (simp add: SubscribersOf_def)
next
  case (Some us)
  then have "(c, us) \<in> set (chat_subscriptions s)" by (rule map_of_SomeD)
  with assms Some show ?thesis by (auto simp: subscriptions_ok_def SubscribersOf_def)
qed

lemma excluded_Some: "excluded (Some u) v \<longleftrightarrow> u \<noteq> [] \<and> v = u"
  by (simp add: excluded_def)

lemma registry_ok_two_devices: "registry_ok two_devices"
  by (simp add: registry_ok_def two_devices_def application_state_def)

lemma subscriptions_ok_two_devices: "subscriptions_ok two_devices"
  by (simp add: subscriptions_ok_def two_devices_def)



lemma for_each_chats_quiet:
  assumes keys: "\<forall>(c, us) \<in> set chats. SubscribersOf s c = us"
    and quiet: "\<forall>(c, us) \<in> set chats. u \<in> set us \<longrightarrow>
                  (\<forall>v \<in> set us. \<not> excluded (Some u) v \<longrightarrow>
                     (\<forall>w \<in> set (ConnectionsOf s v). writable s w))"
  shows "for_each (\<lambda>(chat_id, users) s1.
            if u \<in> set users
            then broadcast_to_chat_with disc chat_id ev d (Some u) s1
            else Some s1)
          chats (s\<lparr>wire := wire s @ acc\<rparr>)
         = Some (s\<lparr>wire := wire s @ acc @
              concat (map (\<lambda>(c, us). if u \<in> set us then fanout s ev d (Some u) us else []) chats)\<rparr>)"
  using assms
proof (induction chats arbitrary: acc)
  case Nil
  show ?case by simp
next
  case (Cons ch chats)
  obtain c us where ch: "ch = (c, us)" by (cases ch)
  show ?case
  proof (cases "u \<in> set us")
    case False
    with Cons ch show ?thesis by simp
  next
    case True
    let ?s1 = "s\<lparr>wire := wire s @ acc\<rparr>"
    have sub: "SubscribersOf ?s1 c = us" using Cons.prems(1) ch by simp
    have "\<forall>v \<in> set (SubscribersOf ?s1 c). \<not> excluded (Some u) v \<longrightarrow>
             (\<forall>w \<in> set (ConnectionsOf ?s1 v). writable ?s1 w)"
      using Cons.prems(2) ch True sub by simp
    from broadcast_to_chat_with_quiet[OF this, of disc ev d] sub
    have "broadcast_to_chat_with disc c ev d (Some u) ?s1 =
            Some (s\<lparr>wire := wire s @ (acc @ fanout s ev d (Some u) us)\<rparr>)"
      by simp
    with Cons.IH[of "acc @ fanout s ev d (Some u) us"] Cons.prems ch True
    show ?thesis by simp
  qed
qed

lemma subscriptions_ok_entry:
  assumes "subscriptions_ok s" and "(c, us) \<in> set (chat_subscriptions s)"
  shows "SubscribersOf s c = us" and "distinct us"
  using assms by (auto simp: subscriptions_ok_def SubscribersOf_def)

lemma broadcast_user_status_with_quiet:
  assumes subs: "subscriptions_ok s"
    and quiet: "\<forall>(c, us) \<in> set (chat_subscriptions s). u \<in> set us \<longrightarrow>
                  (\<forall>v \<in> set us. \<not> excluded (Some u) v \<longrightarrow>
                     (\<forall>w \<in> set (ConnectionsOf s v). writable s w))"
  shows "broadcast_user_status_with disc u st s =
           Some (s\<lparr>wire := wire s @
              concat (map (\<lambda>(c, us). if u \<in> set us
                    then fanout s (if st = ''online'' then USER_ONLINE else USER_OFFLINE)
                           (WSUserStatus u st) (Some u) us
                    else []) (chat_subscriptions s))\<rparr>)"
proof -
  have keys: "\<forall>(c, us) \<in> set (chat_subscriptions s). SubscribersOf s c = us"
    using subscriptions_ok_entry(1)[OF subs] by auto
  from for_each_chats_quiet[OF keys quiet, of disc _ _ "[]"]
  show ?thesis by (simp add: broadcast_user_status_with_def Let_def)
qed

lemma count_list_concat:
  "count_list (concat xss) x = sum_list (map (\<lambda>xs. count_list xs x) xss)"
  by (induction xss) auto

lemma sum_list_indicator:
  "sum_list (map (\<lambda>x. if P x then 1 else 0) xs) = length (filter P xs)"
  by (induction xs) auto

lemma subscriptions_ok_updates [simp]:
  "subscriptions_ok (s\<lparr>wire := w\<rparr>) = subscriptions_ok s"
  "subscriptions_ok (s\<lparr>active_connections := ac\<rparr>) = subscriptions_ok s"
  "subscriptions_ok (s\<lparr>redis := r\<rparr>) = subscriptions_ok s"
  by (simp_all add: subscriptions_ok_def)

lemma ConnectionsOf_delete:
  "ConnectionsOf (s\<lparr>active_connections := AList.delete u (active_connections s)\<rparr>) v =
     (if v = u then [] else ConnectionsOf s v)"
  by (simp add: ConnectionsOf_def AList.delete_conv')

lemma ConnectionsOf_Cons_map_of:
  "ConnectionsOf s u = w # ws \<Longrightarrow> map_of (active_connections s) u = Some (w # ws)"
  by (simp add: ConnectionsOf_def split: option.splits)

lemma world_ac_same [simp]: "s\<lparr>active_connections := active_connections s\<rparr> = s"
  by simp

lemma bind_for_each_Nil: "Option.bind x (for_each body []) = x"
  by (cases x) simp_all

lemma filter_remove1_distinct:
  "distinct xs \<Longrightarrow> filter P (remove1 w xs) = filter (\<lambda>x. x \<noteq> w \<and> P x) xs"
proof (induction xs)
  case Nil
  show ?case by simp
next
  case (Cons a xs)
  show ?case
  proof (cases "a = w")
    case True
    with Cons.prems have "w \<notin> set xs" by simp
    then have "filter P xs = filter (\<lambda>x. x \<noteq> w \<and> P x) xs"
      by (intro filter_cong) auto
    with True show ?thesis by simp
  next
    case False
    with Cons show ?thesis by simp
  qed
qed

lemma swap_updates:
  "s\<lparr>wire := w, active_connections := a\<rparr> = s\<lparr>active_connections := a, wire := w\<rparr>"
  by (rule world.equality) simp_all

lemma prune_all:
  assumes "map_of (active_connections t) U = Some cur" and "cur \<noteq> []" and "distinct cur"
    and "distinct dis" and "set dis \<subseteq> set cur"
  shows "for_each (\<lambda>ws. disconnect ws U) dis t =
           (if set cur \<subseteq> set dis
            then broadcast_user_status U ''offline''
                   (set_user_offline U
                      (t\<lparr>active_connections := AList.delete U (active_connections t)\<rparr>))
            else Some (t\<lparr>active_connections :=
                          AList.update U (filter (\<lambda>w. w \<notin> set dis) cur) (active_connections t)\<rparr>))"
  using assms
proof (induction dis arbitrary: t cur)
  case Nil
  then show ?case by (simp add: AList.update_triv)
next
  case (Cons w dis)
  from Cons.prems have w: "w \<in> set cur" and wd: "w \<notin> set dis" and dd: "distinct dis"
    and sub: "set dis \<subseteq> set cur" by auto
  show ?case
  proof (cases "remove1 w cur = []")
    case True
    with w Cons.prems(3) have cur: "cur = [w]"
      by (metis remove1.simps(2) list.exhaust list.set_cases list.simps(3) remove1_idem
          distinct.simps(2) list.set_intros(1) set_ConsD)
    with sub wd have "dis = []" by (cases dis) auto
    with cur Cons.prems(1) show ?thesis
      by (subst for_each.simps, subst disconnect.simps)
         (simp add: Let_def broadcast_user_status_def bind_for_each_Nil)
  next
    case False
    let ?cur1 = "remove1 w cur"
    let ?t1 = "t\<lparr>active_connections := AList.update U ?cur1 (active_connections t)\<rparr>"
    have step: "disconnect w U t = Some ?t1"
      using Cons.prems(1) w False by (subst disconnect.simps) (simp add: Let_def)
    have m1: "map_of (active_connections ?t1) U = Some ?cur1"
      by (simp add: AList.update_conv')
    have d1: "distinct ?cur1" using Cons.prems(3) by simp
    have s1: "set dis \<subseteq> set ?cur1" using sub wd Cons.prems(3) by auto
    have sets: "set ?cur1 \<subseteq> set dis \<longleftrightarrow> set cur \<subseteq> set (w # dis)"
      using Cons.prems(3) by auto
    have filt: "filter (\<lambda>x. x \<notin> set dis) ?cur1 = filter (\<lambda>x. x \<notin> set (w # dis)) cur"
      using filter_remove1_distinct[OF Cons.prems(3), of "\<lambda>x. x \<notin> set dis" w] by simp
    from Cons.IH[OF m1 False d1 dd s1] step
    show ?thesis
      by (simp add: sets filt AList.delete_update_same del: set_simps)
  qed
qed

lemma redis_keys_offline: "redis_keys (set_user_offline u s) = redis_keys s - {Online u}"
  by (auto simp: redis_keys_def set_user_offline_def split: option.splits)

lemma filter_not_in_failed:
  "filter (\<lambda>w. w \<notin> set (filter (\<lambda>ws. \<not> P ws) cur)) cur = filter P cur"
  by (rule filter_cong) auto

lemma send_typing_status_returns: "\<exists>r. send_typing_status env c u n b s = Some r"
proof (cases c)
  case (JStr x)
  obtain s1 where "broadcast_to_chat x (if b then TYPING_START else TYPING_STOP)
                     (WSTyping x u n) (Some u) s = Some s1"
    using broadcast_to_chat_returns by blast
  with JStr show ?thesis by (simp add: send_typing_status_def)
qed (simp_all add: send_typing_status_def)

lemma send_read_receipt_returns: "\<exists>r. send_read_receipt env c u m s = Some r"
proof (cases c)
  case c: (JStr x)
  show ?thesis
  proof (cases m)
    case (JStr y)
    obtain s1 where "broadcast_to_chat x MESSAGE_READ (WSMessageRead x u y) (Some u) s = Some s1"
      using broadcast_to_chat_returns by blast
    with c JStr show ?thesis by (simp add: send_read_receipt_def)
  qed (simp_all add: send_read_receipt_def c)
qed (simp_all add: send_read_receipt_def)

lemma handle_websocket_event_returns:
  "\<exists>r. handle_websocket_event env ws user event_type data s = Some r"
proof -
  note t = send_typing_status_returns and r = send_read_receipt_returns
  consider "event_type = JStr (value_of PING)" | "event_type = JStr (value_of TYPING_START)"
    | "event_type = JStr (value_of TYPING_STOP)" | "event_type = JStr (value_of MESSAGE_READ)"
    | "event_type = JStr ''subscribe''" | "event_type = JStr ''unsubscribe''"
    | "event_type \<notin> set recognized"
    by (auto simp: recognized_def)
  then show ?thesis
  proof cases
    case 1
    then show ?thesis by (simp add: handle_websocket_event_def split: outcome.splits)
  next
    case 2
    then show ?thesis by (simp add: handle_websocket_event_def t split: option.splits)
  next
    case 3
    then show ?thesis by (simp add: handle_websocket_event_def t split: option.splits)
  next
    case 4
    then show ?thesis by (simp add: handle_websocket_event_def r split: option.splits)
  next
    case 5
    show ?thesis
    proof (cases "py_get data ''chat_id'' JNull")
      case None
      with 5 show ?thesis by (simp add: handle_websocket_event_def)
    next
      case (Some c)
      with 5 show ?thesis
        by (cases c) (simp_all add: handle_websocket_event_def Let_def split: sum.splits option.splits)
    qed
  next
    case 6
    show ?thesis
    proof (cases "py_get data ''chat_id'' JNull")
      case None
      with 6 show ?thesis by (simp add: handle_websocket_event_def)
    next
      case (Some c)
      with 6 show ?thesis
        by (cases c) (simp_all add: handle_websocket_event_def Let_def)
    qed
  next
    case 7
    then show ?thesis by (simp add: handle_websocket_event_def recognized_def)
  qed
qed

lemma read_loop_returns: "\<exists>r. read_loop env ws user frames s = Some r"
proof (induction frames arbitrary: s)
  case Nil
  show ?case by simp
next
  case (Cons f frames)
  show ?case
  proof (cases f)
    case None
    with Cons show ?thesis by (simp split: outcome.splits)
  next
    case (Some message)
    show ?thesis
    proof (cases "py_get message ''event'' JNull")
      case None
      with Some show ?thesis by simp
    next
      case ev: (Some event_type)
      show ?thesis
      proof (cases "py_get message ''data'' (JObj [])")
        case None
        with Some ev show ?thesis by simp
      next
        case d: (Some event_data)
        obtain r where r: "handle_websocket_event env ws user event_type event_data s = Some r"
          using handle_websocket_event_returns by blast
        show ?thesis
          using Some ev d r Cons by (cases r) (simp_all split: outcome.splits)
      qed
    qed
  qed
qed

lemma on_exception_returns: "\<exists>s'. on_exception ws user e s = Some s'"
proof (cases user)
  case None
  then show ?thesis by (simp add: on_exception_def)
next
  case (Some u)
  obtain s1 where "disconnect ws (id_str u) s = Some s1" using disconnect_returns by blast
  with Some show ?thesis by (simp add: on_exception_def)
qed

lemma handshake_returns: "\<exists>h. handshake env ws token s = Some h"
proof (cases token)
  case None
  then show ?thesis by (simp add: handshake_def)
next
  case (Some tok)
  show ?thesis
  proof (cases "tok = []")
    case True
    with Some show ?thesis by (simp add: handshake_def)
  next
    case False
    show ?thesis
    proof (cases "get_user_from_token env tok")
      case None
      with Some False show ?thesis by (simp add: handshake_def)
    next
      case user: (Some user)
      obtain r where "connect ws (id_str user) s = Some r" using connect_returns by blast
      with Some False user show ?thesis by (cases r) (simp_all add: handshake_def Let_def)
    qed
  qed
qed

section \<open>The claims\<close>




text \<open>
  \<^bold>\<open>C2\<close>. In a well-formed world, when no write to a connection of another subscriber of
  chat \<open>C\<close> fails, \<^verbatim>\<open>broadcast_to_chat(C, E, exclude_user=U)\<close> returns, changes nothing but
  the wire, writes nothing to any connection of \<open>U\<close>, and writes the frame \<open>E\<close> exactly once
  to every connection of every other user in the subscription set of \<open>C\<close>. A user id is
  the \<^verbatim>\<open>str()\<close> of a key and never empty; the empty string would not be excluded by
  \<^verbatim>\<open>if exclude_user and ...\<close>.
\<close>

theorem broadcast_excludes_and_reaches:
  assumes ok: "registry_ok s" and subs: "subscriptions_ok s" and U: "U \<noteq> []"
    and quiet: "\<forall>V \<in> set (SubscribersOf s C). V \<noteq> U \<longrightarrow>
                  (\<forall>ws \<in> set (ConnectionsOf s V). writable s ws)"
  shows "\<exists>out. broadcast_to_chat C E D (Some U) s = Some (s\<lparr>wire := wire s @ out\<rparr>) \<and>
           (\<forall>ws \<in> set (ConnectionsOf s U). \<forall>e d. Sent ws e d \<notin> set out) \<and>
           (\<forall>V \<in> set (SubscribersOf s C). V \<noteq> U \<longrightarrow>
              (\<forall>ws \<in> set (ConnectionsOf s V). count_list out (Sent ws E D) = 1))"
proof -
  let ?out = "fanout s E D (Some U) (SubscribersOf s C)"
  have run: "broadcast_to_chat C E D (Some U) s = Some (s\<lparr>wire := wire s @ ?out\<rparr>)"
    unfolding broadcast_to_chat_def
    by (rule broadcast_to_chat_with_quiet) (use quiet U in \<open>auto simp: excluded_Some\<close>)
  have none: "Sent ws e d \<notin> set ?out" if "ws \<in> set (ConnectionsOf s U)" for ws e d
  proof
    assume "Sent ws e d \<in> set ?out"
    then obtain u where "\<not> excluded (Some U) u" "ws \<in> set (ConnectionsOf s u)"
      by (auto simp: set_fanout)
    with U have "u \<noteq> U" "ws \<in> set (ConnectionsOf s u)" by (auto simp: excluded_Some)
    with registry_ok_ConnectionsOf(2)[OF ok, of u U] that show False by auto
  qed
  have once: "count_list ?out (Sent ws E D) = 1"
    if "V \<in> set (SubscribersOf s C)" "V \<noteq> U" "ws \<in> set (ConnectionsOf s V)" for V ws
    using count_fanout[OF ok subscriptions_ok_distinct[OF subs] that(3), of E D "Some U" C] that
    by (simp add: excluded_Some)
  from run none once show ?thesis by blast
qed

text \<open>
  \<^bold>\<open>C2\<close>, an instance: Alice on two devices and Bob on one, both subscribed to
  \<^verbatim>\<open>c1\<close>; a broadcast that excludes Alice is written once, to Bob's connection.
\<close>

theorem broadcast_excludes_and_reaches_witness:
  "registry_ok two_devices \<and> subscriptions_ok two_devices \<and>
   ConnectionsOf two_devices ''u-alice'' = [1, 3] \<and> ConnectionsOf two_devices ''u-bob'' = [2] \<and>
   broadcast_to_chat ''c1'' MESSAGE_NEW (JObj []) (Some ''u-alice'') two_devices =
     Some (two_devices\<lparr>wire := [Sent 2 MESSAGE_NEW (JObj [])]\<rparr>) \<and>
   count_list [Sent 2 MESSAGE_NEW (JObj [])] (Sent 2 MESSAGE_NEW (JObj [])) = 1"
proof -
  have U: "''u-alice'' \<noteq> []" by simp
  have quiet: "\<forall>V \<in> set (SubscribersOf two_devices ''c1''). V \<noteq> ''u-alice'' \<longrightarrow>
                  (\<forall>ws \<in> set (ConnectionsOf two_devices V). writable two_devices ws)"
    by (simp add: SubscribersOf_def ConnectionsOf_def writable_def application_state_def
        two_devices_def)
  from broadcast_excludes_and_reaches[OF registry_ok_two_devices subscriptions_ok_two_devices U quiet,
      of MESSAGE_NEW "JObj []"]
  obtain out where run: "broadcast_to_chat ''c1'' MESSAGE_NEW (JObj []) (Some ''u-alice'') two_devices
        = Some (two_devices\<lparr>wire := wire two_devices @ out\<rparr>)"
    and once: "\<forall>V \<in> set (SubscribersOf two_devices ''c1''). V \<noteq> ''u-alice'' \<longrightarrow>
              (\<forall>ws \<in> set (ConnectionsOf two_devices V).
                 count_list out (Sent ws MESSAGE_NEW (JObj [])) = 1)"
    by blast
  have "map_option wire (broadcast_to_chat ''c1'' MESSAGE_NEW (JObj []) (Some ''u-alice'') two_devices)
        = Some [Sent 2 MESSAGE_NEW (JObj [])]"
    by code_simp
  with run have out: "out = [Sent 2 MESSAGE_NEW (JObj [])]" by (simp add: two_devices_def)
  have c: "ConnectionsOf two_devices ''u-alice'' = [1, 3] \<and> ConnectionsOf two_devices ''u-bob'' = [2]"
    by (simp add: ConnectionsOf_def two_devices_def)
  from once have "count_list out (Sent 2 MESSAGE_NEW (JObj [])) = 1"
    by (simp add: SubscribersOf_def ConnectionsOf_def two_devices_def)
  with run out c registry_ok_two_devices subscriptions_ok_two_devices show ?thesis
    by (simp add: two_devices_def)
qed

text \<open>
  \<^bold>\<open>C3\<close>. From a manager with no connections, after any sequence of calls of
  \<^verbatim>\<open>connect\<close> and \<^verbatim>\<open>disconnect\<close> (and of \<^verbatim>\<open>subscribe_to_chat\<close> and
  \<^verbatim>\<open>unsubscribe_from_chat\<close>), every user in \<^verbatim>\<open>active_connections\<close> has a list of
  connections that is not empty and has no duplicates, and \<^verbatim>\<open>is_user_online\<close> holds for
  exactly the users that have a registered connection. Every sequence runs to its end.
\<close>

theorem registry_invariant:
  assumes "active_connections s0 = []"
  shows "\<exists>s. run calls s0 = Some s \<and>
           (\<forall>(u, conns) \<in> set (active_connections s). conns \<noteq> [] \<and> distinct conns) \<and>
           (\<forall>u. is_user_online u s \<longleftrightarrow> ConnectionsOf s u \<noteq> [])"
proof -
  have "registry_ok s0" using assms by (simp add: registry_ok_def)
  then obtain s where s: "run calls s0 = Some s" "registry_ok s"
    using run_registry_ok by blast
  from s(2) have "\<forall>(u, conns) \<in> set (active_connections s). conns \<noteq> [] \<and> distinct conns"
    unfolding registry_ok_def by blast
  with s registry_ok_online show ?thesis by blast
qed

text \<open>
  \<^bold>\<open>C3\<close>, an instance: two users on three transports, one of them offered twice and one
  disconnected twice.
\<close>

theorem registry_invariant_witness:
  "active_connections fresh = [] \<and>
   (\<exists>s. run [Connect 1 ''u-alice'', Connect 2 ''u-alice'', Connect 2 ''u-bob'', Connect 3 ''u-bob'',
              Disconnect 1 ''u-alice'', Disconnect 3 ''u-bob'', Disconnect 3 ''u-bob''] fresh = Some s \<and>
        active_connections s = [(''u-alice'', [2])] \<and>
        is_user_online ''u-alice'' s \<and> \<not> is_user_online ''u-bob'' s \<and>
        ConnectionsOf s ''u-alice'' \<noteq> [] \<and> ConnectionsOf s ''u-bob'' = [])"
proof -
  let ?calls = "[Connect 1 ''u-alice'', Connect 2 ''u-alice'', Connect 2 ''u-bob'', Connect 3 ''u-bob'',
              Disconnect 1 ''u-alice'', Disconnect 3 ''u-bob'', Disconnect 3 ''u-bob'']"
  have e: "active_connections fresh = []" by (simp add: fresh_def)
  from registry_invariant[OF e, of ?calls]
  obtain s where s: "run ?calls fresh = Some s"
    and on: "\<forall>u. is_user_online u s \<longleftrightarrow> ConnectionsOf s u \<noteq> []"
    by blast
  have "map_option active_connections (run ?calls fresh) = Some [(''u-alice'', [2])]"
    by code_simp
  with s have ac: "active_connections s = [(''u-alice'', [2])]" by simp
  then have "ConnectionsOf s ''u-alice'' \<noteq> [] \<and> ConnectionsOf s ''u-bob'' = []"
    by (simp add: ConnectionsOf_def)
  with on s ac e show ?thesis by auto
qed

text \<open>
  \<^bold>\<open>C4\<close>. In a well-formed world, when the only connection of \<open>U\<close> disconnects and the
  writes to the other subscribers of the chats of \<open>U\<close> succeed, \<open>U\<close> is offline afterwards,
  nothing is written to the connection that closed, and every connection of every other
  user \<open>V\<close> receives the user-offline frame of \<open>U\<close> once for each chat whose subscription
  set holds both \<open>U\<close> and \<open>V\<close>: twice when they share two chats.
\<close>

theorem last_disconnect_announced_per_chat:
  assumes ok: "registry_ok s" and subs: "subscriptions_ok s"
    and last: "ConnectionsOf s U = [ws]"
    and quiet: "\<forall>(c, us) \<in> set (chat_subscriptions s). U \<in> set us \<longrightarrow>
                  (\<forall>V \<in> set us. V \<noteq> U \<longrightarrow> (\<forall>w \<in> set (ConnectionsOf s V). writable s w))"
  shows "\<exists>out s'. disconnect ws U s = Some s' \<and> wire s' = wire s @ out \<and>
           \<not> is_user_online U s' \<and>
           (\<forall>e d. Sent ws e d \<notin> set out) \<and>
           (\<forall>V w. V \<noteq> U \<and> w \<in> set (ConnectionsOf s V) \<longrightarrow>
              count_list out (Sent w USER_OFFLINE (WSUserStatus U ''offline'')) =
                length (filter (\<lambda>(c, us). U \<in> set us \<and> V \<in> set us) (chat_subscriptions s)))"
proof -
  let ?s0 = "s\<lparr>active_connections := AList.delete U (active_connections s)\<rparr>"
  let ?s1 = "set_user_offline U ?s0"
  let ?data = "WSUserStatus U ''offline''"
  let ?g = "\<lambda>(c, us). if U \<in> set us then fanout ?s1 USER_OFFLINE ?data (Some U) us else []"
  let ?out = "concat (map ?g (chat_subscriptions s))"
  have m: "map_of (active_connections s) U = Some [ws]"
    using last by (rule ConnectionsOf_Cons_map_of)
  have conn1: "ConnectionsOf ?s1 v = (if v = U then [] else ConnectionsOf s v)" for v
    by (simp add: set_user_offline_def ConnectionsOf_delete)
  have wr1: "writable ?s1 = writable s" by (simp add: set_user_offline_def)
  have cs1: "chat_subscriptions ?s1 = chat_subscriptions s" by simp
  have subs1: "subscriptions_ok ?s1" using subs by (simp add: set_user_offline_def)
  have ok1: "registry_ok ?s1"
    using registry_ok_delete[OF ok, of U] by (simp add: set_user_offline_def)
  have quiet1: "\<forall>(c, us) \<in> set (chat_subscriptions ?s1). U \<in> set us \<longrightarrow>
                  (\<forall>v \<in> set us. \<not> excluded (Some U) v \<longrightarrow>
                     (\<forall>w \<in> set (ConnectionsOf ?s1 v). writable ?s1 w))"
    using quiet unfolding cs1 wr1 by (auto simp: conn1)
  have "broadcast_user_status_with disconnect U ''offline'' ?s1
          = Some (?s1\<lparr>wire := wire ?s1 @ ?out\<rparr>)"
    using broadcast_user_status_with_quiet[OF subs1 quiet1, of disconnect "''offline''"]
    unfolding cs1 by simp
  with m have run: "disconnect ws U s = Some (?s1\<lparr>wire := wire ?s1 @ ?out\<rparr>)"
    by (subst disconnect.simps) (simp add: Let_def)
  have off: "\<not> is_user_online U (?s1\<lparr>wire := wire ?s1 @ ?out\<rparr>)"
    by (simp add: is_user_online_def set_user_offline_def AList.delete_conv')
  have never: "Sent ws e d \<notin> set ?out" for e d
  proof
    assume "Sent ws e d \<in> set ?out"
    then obtain v where "ws \<in> set (ConnectionsOf ?s1 v)"
      by (auto simp: set_fanout split: if_splits)
    then have v: "v \<noteq> U" "ws \<in> set (ConnectionsOf s v)" by (auto simp: conn1 split: if_splits)
    with registry_ok_ConnectionsOf(2)[OF ok v(1)] last show False by auto
  qed
  have count: "count_list ?out (Sent w USER_OFFLINE ?data) =
                 length (filter (\<lambda>(c, us). U \<in> set us \<and> V \<in> set us) (chat_subscriptions s))"
    if V: "V \<noteq> U" and w: "w \<in> set (ConnectionsOf s V)" for V w
  proof -
    have w1: "w \<in> set (ConnectionsOf ?s1 V)" using V w by (simp add: conn1)
    have each: "count_list (?g ch) (Sent w USER_OFFLINE ?data) =
                  (if (\<lambda>(c, us). U \<in> set us \<and> V \<in> set us) ch then 1 else 0)"
      if "ch \<in> set (chat_subscriptions s)" for ch
    proof -
      obtain c us where ch: "ch = (c, us)" by (cases ch)
      have "distinct us" using subscriptions_ok_entry(2)[OF subs] that ch by blast
      from count_fanout[OF ok1 this w1, of USER_OFFLINE ?data "Some U"] V ch
      show ?thesis by (simp add: excluded_Some)
    qed
    have "count_list ?out (Sent w USER_OFFLINE ?data) =
            sum_list (map (\<lambda>ch. count_list (?g ch) (Sent w USER_OFFLINE ?data)) (chat_subscriptions s))"
      by (simp add: count_list_concat comp_def)
    also have "\<dots> = sum_list (map (\<lambda>ch. if (\<lambda>(c, us). U \<in> set us \<and> V \<in> set us) ch then 1 else 0)
                                 (chat_subscriptions s))"
      using each by (intro arg_cong[where f = sum_list] map_cong) auto
    also have "\<dots> = length (filter (\<lambda>(c, us). U \<in> set us \<and> V \<in> set us) (chat_subscriptions s))"
      by (rule sum_list_indicator)
    finally show ?thesis .
  qed
  have "wire (?s1\<lparr>wire := wire ?s1 @ ?out\<rparr>) = wire s @ ?out" by simp
  with run off never count show ?thesis by blast
qed

text \<open>
  \<^bold>\<open>C4\<close>, an instance: Bob, who shares two chats with Alice, disconnects; Alice's
  connection receives his user-offline frame twice.
\<close>

theorem last_disconnect_announced_per_chat_witness:
  "registry_ok after_alice_and_bob \<and> subscriptions_ok after_alice_and_bob \<and>
   ConnectionsOf after_alice_and_bob ''u-bob'' = [2] \<and>
   ConnectionsOf after_alice_and_bob ''u-alice'' = [1] \<and>
   map_option wire (disconnect 2 ''u-bob'' after_alice_and_bob) =
     Some [Sent 1 USER_OFFLINE (WSUserStatus ''u-bob'' ''offline''),
           Sent 1 USER_OFFLINE (WSUserStatus ''u-bob'' ''offline'')] \<and>
   length (filter (\<lambda>(c, us). ''u-bob'' \<in> set us \<and> ''u-alice'' \<in> set us)
             (chat_subscriptions after_alice_and_bob)) = 2"
proof -
  have ok: "registry_ok after_alice_and_bob"
    by (simp add: registry_ok_def after_alice_and_bob_def application_state_def)
  have subs: "subscriptions_ok after_alice_and_bob"
    by (simp add: subscriptions_ok_def after_alice_and_bob_def)
  have last: "ConnectionsOf after_alice_and_bob ''u-bob'' = [2]"
    by (simp add: ConnectionsOf_def after_alice_and_bob_def)
  have al: "ConnectionsOf after_alice_and_bob ''u-alice'' = [1]"
    by (simp add: ConnectionsOf_def after_alice_and_bob_def)
  have quiet: "\<forall>(c, us) \<in> set (chat_subscriptions after_alice_and_bob). ''u-bob'' \<in> set us \<longrightarrow>
                  (\<forall>V \<in> set us. V \<noteq> ''u-bob'' \<longrightarrow>
                     (\<forall>w \<in> set (ConnectionsOf after_alice_and_bob V). writable after_alice_and_bob w))"
    by (simp add: ConnectionsOf_def writable_def application_state_def after_alice_and_bob_def)
  from last_disconnect_announced_per_chat[OF ok subs last quiet]
  obtain out s' where run: "disconnect 2 ''u-bob'' after_alice_and_bob = Some s'"
    and w: "wire s' = wire after_alice_and_bob @ out"
    and cnt: "\<forall>V w. V \<noteq> ''u-bob'' \<and> w \<in> set (ConnectionsOf after_alice_and_bob V) \<longrightarrow>
              count_list out (Sent w USER_OFFLINE (WSUserStatus ''u-bob'' ''offline'')) =
                length (filter (\<lambda>(c, us). ''u-bob'' \<in> set us \<and> V \<in> set us)
                  (chat_subscriptions after_alice_and_bob))"
    by blast
  have ev: "map_option wire (disconnect 2 ''u-bob'' after_alice_and_bob) =
     Some [Sent 1 USER_OFFLINE (WSUserStatus ''u-bob'' ''offline''),
           Sent 1 USER_OFFLINE (WSUserStatus ''u-bob'' ''offline'')]"
    by code_simp
  with run w have out: "out = [Sent 1 USER_OFFLINE (WSUserStatus ''u-bob'' ''offline''),
           Sent 1 USER_OFFLINE (WSUserStatus ''u-bob'' ''offline'')]"
    by (simp add: after_alice_and_bob_def)
  from cnt[rule_format, of "''u-alice''" 1] al
  have "count_list out (Sent 1 USER_OFFLINE (WSUserStatus ''u-bob'' ''offline'')) =
          length (filter (\<lambda>(c, us). ''u-bob'' \<in> set us \<and> ''u-alice'' \<in> set us)
                  (chat_subscriptions after_alice_and_bob))"
    by simp
  with out have "length (filter (\<lambda>(c, us). ''u-bob'' \<in> set us \<and> ''u-alice'' \<in> set us)
                  (chat_subscriptions after_alice_and_bob)) = 2"
    by simp
  with ok subs last al ev show ?thesis by blast
qed






text \<open>
  \<^bold>\<open>C7\<close>. In a well-formed world \<^verbatim>\<open>send_personal_message(U, E)\<close> returns (it has no way to
  raise), and the wire shows one attempt on every registered connection of \<open>U\<close>, in order.
  Afterwards the connections of \<open>U\<close> are those whose write succeeded. When every write
  failed, \<open>U\<close> is offline, its presence key is gone, and the call ends as the broadcast
  of the user-offline status of \<open>U\<close> does; otherwise nothing more is written and Redis is
  untouched.
\<close>

theorem send_personal_message_prunes:
  assumes ok: "registry_ok s"
  shows "\<exists>s' rest. send_personal_message U E D s = Some s' \<and>
           wire s' = wire s @ attempts s E D (ConnectionsOf s U) @ rest \<and>
           set (ConnectionsOf s' U) = {ws \<in> set (ConnectionsOf s U). writable s ws} \<and>
           (if ConnectionsOf s U \<noteq> [] \<and> (\<forall>ws \<in> set (ConnectionsOf s U). \<not> writable s ws)
            then \<not> is_user_online U s' \<and> Online U \<notin> redis_keys s' \<and>
                 broadcast_user_status U ''offline''
                   (set_user_offline U
                      (s\<lparr>active_connections := AList.delete U (active_connections s),
                         wire := wire s @ attempts s E D (ConnectionsOf s U)\<rparr>)) = Some s'
            else rest = [] \<and> redis s' = redis s \<and>
                 ConnectionsOf s' U = filter (writable s) (ConnectionsOf s U))"
proof (cases "map_of (active_connections s) U")
  case None
  then have "send_personal_message U E D s = Some s" "ConnectionsOf s U = []"
    by (simp_all add: send_personal_message_def ConnectionsOf_def)
  then show ?thesis by (simp add: attempts_def)
next
  case (Some conns)
  then have c: "ConnectionsOf s U = conns" by (simp add: ConnectionsOf_def)
  from registry_okD(2)[OF ok Some] have ne: "conns \<noteq> []" and dc: "distinct conns" by auto
  let ?t = "s\<lparr>wire := wire s @ attempts s E D conns\<rparr>"
  let ?dis = "filter (\<lambda>ws. \<not> writable s ws) conns"
  have run: "send_personal_message U E D s = for_each (\<lambda>ws. disconnect ws U) ?dis ?t"
    using Some by (simp add: send_personal_message_def send_each_eq)
  have mt: "map_of (active_connections ?t) U = Some conns" using Some by simp
  have dd: "distinct ?dis" "set ?dis \<subseteq> set conns" using dc by auto
  note pa = prune_all[OF mt ne dc dd]
  show ?thesis
  proof (cases "\<forall>ws \<in> set conns. \<not> writable s ws")
    case True
    let ?s1 = "set_user_offline U
                 (s\<lparr>active_connections := AList.delete U (active_connections s),
                    wire := wire s @ attempts s E D conns\<rparr>)"
    from True have all: "set conns \<subseteq> set ?dis" by auto
    have swap: "set_user_offline U
                  (?t\<lparr>active_connections := AList.delete U (active_connections ?t)\<rparr>) = ?s1"
      by (simp add: swap_updates)
    obtain s' where s': "broadcast_user_status U ''offline'' ?s1 = Some s'"
      using broadcast_user_status_returns by blast
    then have e: "evolves ?s1 s'" by (rule broadcast_user_status_evolves)
    from pa all have "for_each (\<lambda>ws. disconnect ws U) ?dis ?t =
        broadcast_user_status U ''offline''
          (set_user_offline U (?t\<lparr>active_connections := AList.delete U (active_connections ?t)\<rparr>))"
      by (simp only: if_True)
    with s' run have r: "send_personal_message U E D s = Some s'" by (simp only: swap)
    from e obtain rest where w: "wire s' = wire ?s1 @ rest" by (auto simp: evolves_def)
    have "map_of (active_connections ?s1) U = None"
      by (simp add: set_user_offline_def AList.delete_conv')
    with e have gone: "map_of (active_connections s') U = None" by (simp add: evolves_def)
    then have off: "\<not> is_user_online U s'" and c': "ConnectionsOf s' U = []"
      by (simp_all add: is_user_online_def ConnectionsOf_def)
    have "Online U \<notin> redis_keys ?s1" by (simp add: redis_keys_offline)
    with e have key: "Online U \<notin> redis_keys s'" by (auto simp: evolves_def)
    from r w off c' key s' True ne c show ?thesis
      by (intro exI[of _ s'] exI[of _ rest]) (simp add: set_user_offline_def)
  next
    case False
    then have nall: "\<not> set conns \<subseteq> set ?dis" by auto
    let ?s' = "?t\<lparr>active_connections :=
                   AList.update U (filter (writable s) conns) (active_connections ?t)\<rparr>"
    from pa nall have "for_each (\<lambda>ws. disconnect ws U) ?dis ?t =
        Some (?t\<lparr>active_connections :=
                AList.update U (filter (\<lambda>w. w \<notin> set ?dis) conns) (active_connections ?t)\<rparr>)"
      by (simp only: if_False)
    with run have r: "send_personal_message U E D s = Some ?s'"
      by (simp only: filter_not_in_failed[of "writable s" conns])
    have c': "ConnectionsOf ?s' U = filter (writable s) conns"
      by (simp add: ConnectionsOf_def AList.update_conv')
    from r c' False c show ?thesis
      by (intro exI[of _ ?s'] exI[of _ "[]"]) auto
  qed
qed

text \<open>
  \<^bold>\<open>C7\<close>, an instance: both of Alice's transports have lost their peer; she goes offline
  and Bob is told once per shared chat.
\<close>

theorem send_personal_message_prunes_witness:
  "registry_ok alice_unreachable \<and>
   send_personal_message ''u-alice'' NOTIFICATION (JObj []) alice_unreachable =
     Some \<lparr>active_connections = [(''u-bob'', [2])],
           chat_subscriptions = [(''c1'', [''u-bob'', ''u-alice'']), (''c2'', [''u-bob'', ''u-alice''])],
           redis = Some [Online ''u-bob''],
           states = [(1, CONNECTED), (2, CONNECTED), (3, CONNECTED)], broken = [1, 3],
           wire = [SendFailed 1 NOTIFICATION (JObj []), SendFailed 3 NOTIFICATION (JObj []),
                   Sent 2 USER_OFFLINE (WSUserStatus ''u-alice'' ''offline''),
                   Sent 2 USER_OFFLINE (WSUserStatus ''u-alice'' ''offline'')]\<rparr> \<and>
   (\<exists>s'. send_personal_message ''u-alice'' NOTIFICATION (JObj []) alice_unreachable = Some s' \<and>
         \<not> is_user_online ''u-alice'' s' \<and> Online ''u-alice'' \<notin> redis_keys s')"
proof -
  have ok: "registry_ok alice_unreachable"
    by (simp add: registry_ok_def alice_unreachable_def application_state_def)
  have c: "ConnectionsOf alice_unreachable ''u-alice'' = [1, 3]"
    by (simp add: ConnectionsOf_def alice_unreachable_def)
  have fail: "ConnectionsOf alice_unreachable ''u-alice'' \<noteq> [] \<and>
              (\<forall>ws \<in> set (ConnectionsOf alice_unreachable ''u-alice''). \<not> writable alice_unreachable ws)"
    unfolding c by (simp add: writable_def alice_unreachable_def)
  from send_personal_message_prunes[OF ok, of "''u-alice''" NOTIFICATION "JObj []"] fail
  obtain s' where run: "send_personal_message ''u-alice'' NOTIFICATION (JObj []) alice_unreachable = Some s'"
    and off: "\<not> is_user_online ''u-alice'' s' \<and> Online ''u-alice'' \<notin> redis_keys s'"
    by (auto split: if_splits)
  have ev: "send_personal_message ''u-alice'' NOTIFICATION (JObj []) alice_unreachable =
     Some \<lparr>active_connections = [(''u-bob'', [2])],
           chat_subscriptions = [(''c1'', [''u-bob'', ''u-alice'']), (''c2'', [''u-bob'', ''u-alice''])],
           redis = Some [Online ''u-bob''],
           states = [(1, CONNECTED), (2, CONNECTED), (3, CONNECTED)], broken = [1, 3],
           wire = [SendFailed 1 NOTIFICATION (JObj []), SendFailed 3 NOTIFICATION (JObj []),
                   Sent 2 USER_OFFLINE (WSUserStatus ''u-alice'' ''offline''),
                   Sent 2 USER_OFFLINE (WSUserStatus ''u-alice'' ''offline'')]\<rparr>"
    by code_simp
  from ok ev run off show ?thesis by blast
qed






text \<open>
  \<^bold>\<open>C10\<close>. When user \<open>U\<close> is in no subscription set, \<^verbatim>\<open>connect\<close> writes to no transport,
  and the whole handshake writes one frame only, the acknowledgement on the new
  connection, although it leaves \<open>U\<close> subscribed to each of its chats. So a user-online
  frame is written only by a \<^verbatim>\<open>connect\<close> that finds \<open>U\<close> subscribed already.
\<close>

theorem first_connection_announced_to_no_one:
  assumes unsub: "\<forall>(c, us) \<in> set (chat_subscriptions s). u \<notin> set us"
  shows "(\<exists>r. connect ws u s = Some r \<and> wire (world_of r) = wire s) \<and>
         (\<forall>env tok user. tok \<noteq> [] \<and> get_user_from_token env tok = Some user \<and> id_str user = u \<and>
              application_state s ws = CONNECTING \<and> ws \<notin> set (broken s) \<longrightarrow>
            (\<exists>s'. handshake env ws (Some tok) s = Some (Some user, Done s') \<and>
                  wire s' = wire s @
                    [Sent ws CONNECT (connected_data user (length (get_user_chat_ids env u)))] \<and>
                  (\<forall>c \<in> set (get_user_chat_ids env u). u \<in> set (SubscribersOf s' c))))"
proof (intro conjI allI impI)
  show "\<exists>r. connect ws u s = Some r \<and> wire (world_of r) = wire s"
    by (simp add: connect_unsubscribed[OF unsub])
next
  fix env tok user
  assume a: "tok \<noteq> [] \<and> get_user_from_token env tok = Some user \<and> id_str user = u \<and>
              application_state s ws = CONNECTING \<and> ws \<notin> set (broken s)"
  let ?s1 = "set_user_online u
                        (s\<lparr>states := AList.update ws CONNECTED (states s),
                           active_connections :=
                             AList.update u (ConnectionsOf s u @ [ws]) (active_connections s)\<rparr>)"
  have w: "writable ?s1 ws"
    by (simp add: writable_def application_state_def set_user_online_def AList.update_conv' a)
  show "\<exists>s'. handshake env ws (Some tok) s = Some (Some user, Done s') \<and>
                  wire s' = wire s @
                    [Sent ws CONNECT (connected_data user (length (get_user_chat_ids env u)))] \<and>
                  (\<forall>c \<in> set (get_user_chat_ids env u). u \<in> set (SubscribersOf s' c))"
    using a w
    by (simp add: handshake_def connect_unsubscribed[OF unsub] send_json_def Let_def
        SubscribersOf_fold_subscribe)
qed

text \<open>
  \<^bold>\<open>C10\<close>, an instance: Bob connects while Alice, who shares two chats with him, is
  online; Alice's connection receives nothing.
\<close>

theorem first_connection_announced_to_no_one_witness:
  "chat_subscriptions alice_online = [(''c1'', [''u-alice'']), (''c2'', [''u-alice''])] \<and>
   (\<exists>s'. handshake demo_env 2 (Some ''token-bob'') alice_online = Some (Some bob, Done s') \<and>
         wire s' = [Sent 2 CONNECT (connected_data bob 2)] \<and>
         set (SubscribersOf s' ''c1'') = {''u-alice'', ''u-bob''} \<and>
         ConnectionsOf s' ''u-alice'' = [1])"
proof -
  have unsub: "\<forall>(c, us) \<in> set (chat_subscriptions alice_online). ''u-bob'' \<notin> set us"
    by (simp add: alice_online_def)
  have pre: "''token-bob'' \<noteq> [] \<and> get_user_from_token demo_env ''token-bob'' = Some bob \<and>
             id_str bob = ''u-bob'' \<and> application_state alice_online 2 = CONNECTING \<and>
             2 \<notin> set (broken alice_online)"
    by (simp add: get_user_from_token_def verify_token_def demo_env_def bob_def alice_def
        application_state_def alice_online_def)
  have ids: "get_user_chat_ids demo_env ''u-bob'' = [''c1'', ''c2'']"
    by (simp add: get_user_chat_ids_def demo_env_def)
  from first_connection_announced_to_no_one[OF unsub, of 2] pre
  obtain s' where s': "handshake demo_env 2 (Some ''token-bob'') alice_online = Some (Some bob, Done s')"
    and w: "wire s' = wire alice_online @
              [Sent 2 CONNECT (connected_data bob (length (get_user_chat_ids demo_env ''u-bob'')))]"
    by blast
  have ev: "handshake demo_env 2 (Some ''token-bob'') alice_online =
          Some (Some bob, Done
            \<lparr>active_connections = [(''u-alice'', [1]), (''u-bob'', [2])],
             chat_subscriptions = [(''c1'', [''u-bob'', ''u-alice'']), (''c2'', [''u-bob'', ''u-alice''])],
             redis = Some [Online ''u-bob'', Online ''u-alice''],
             states = [(1, CONNECTED), (2, CONNECTED)], broken = [],
             wire = [Sent 2 CONNECT (connected_data bob 2)]\<rparr>)"
    by code_simp
  with s' have "s' = \<lparr>active_connections = [(''u-alice'', [1]), (''u-bob'', [2])],
             chat_subscriptions = [(''c1'', [''u-bob'', ''u-alice'']), (''c2'', [''u-bob'', ''u-alice''])],
             redis = Some [Online ''u-bob'', Online ''u-alice''],
             states = [(1, CONNECTED), (2, CONNECTED)], broken = [],
             wire = [Sent 2 CONNECT (connected_data bob 2)]\<rparr>" by simp
  then have "set (SubscribersOf s' ''c1'') = {''u-alice'', ''u-bob''} \<and> ConnectionsOf s' ''u-alice'' = [1]"
    by (auto simp: SubscribersOf_def ConnectionsOf_def)
  moreover have "wire s' = [Sent 2 CONNECT (connected_data bob 2)]"
    using w ids by (simp add: alice_online_def numeral_2_eq_2)
  moreover have "chat_subscriptions alice_online = [(''c1'', [''u-alice'']), (''c2'', [''u-alice''])]"
    by (simp add: alice_online_def)
  ultimately show ?thesis using s' by blast
qed

text \<open>
  \<^bold>\<open>X1\<close>. The endpoint returns for every token, every sequence of frames and every world:
  each exception is caught by one of its two handlers, and the pruning that a failed
  write starts comes to an end.
\<close>

theorem endpoint_returns: "\<exists>s'. websocket_endpoint env ws token frames s = Some s'"
proof -
  obtain user r where h: "handshake env ws token s = Some (user, r)"
    using handshake_returns by (metis surj_pair)
  have "\<exists>user' r'. try_body env ws token frames s = Some (user', r')"
  proof (cases user)
    case None
    with h show ?thesis by (simp add: try_body_def)
  next
    case (Some u)
    show ?thesis
    proof (cases r)
      case (Done s1)
      obtain r1 where "read_loop env ws u frames s1 = Some r1" using read_loop_returns by blast
      with h Some Done show ?thesis by (simp add: try_body_def)
    next
      case (Raised e s1)
      with h Some show ?thesis by (simp add: try_body_def)
    qed
  qed
  then obtain user' r' where b: "try_body env ws token frames s = Some (user', r')" by blast
  show ?thesis
  proof (cases r')
    case (Done s1)
    with b show ?thesis by (simp add: websocket_endpoint_def)
  next
    case (Raised e s1)
    with b on_exception_returns[of ws user' e s1] show ?thesis
      by (simp add: websocket_endpoint_def)
  qed
qed

end
